theory Spec2Isabelle
  imports Complex_Main
begin

section \<open>Data model\<close>

text \<open>
  The gate-type tags of the host circuit library. The first fifteen are the keys of the
  translation table \<open>_gate\<close>; the host library has many more tags, of which a
  representative handful is listed after them (none of those is a key of the table).
\<close>

datatype OpType =
    noop | X | Y | Z | H | S | SX | SXdg | CX | CY | CZ | ISWAPMax | SWAP | Measure | Reset
  | Sdg | T | Tdg | V | Vdg | Rx | Ry | Rz | TK1 | CCX | Barrier | Conditional

text \<open>
  Unit identifiers: a register name and an index. Qubits and classical bits are different
  kinds of unit; the default registers are \<open>q\<close> and \<open>c\<close>.
\<close>

datatype UnitID = Qubit string "nat list" | Bit string "nat list"

record Command =
  op_type :: OpType
  args :: "UnitID list"

text \<open>
  A circuit: declared qubits, declared classical bits (both in declaration order), the
  commands in the order \<open>get_commands()\<close> yields them, and the global phase in half-turns.
\<close>

record Circuit =
  qubits :: "UnitID list"
  bits :: "UnitID list"
  commands :: "Command list"
  phase :: real

text \<open>
  Exceptions are values. The Python exception class is the constructor; a
  \<open>ValueError\<close> carries its message, since the source raises \<open>ValueError\<close> for several
  different conditions.
\<close>

datatype error =
    ValueError string
  | KeyError OpType
  | IndexError
  | TypeError
  | AssertionError
  | CircuitNotValidError nat
  | CircuitNotRunError string
  | OverflowError
  | ExecutorError

abbreviation NonCliffordAngle :: error where
  "NonCliffordAngle \<equiv> ValueError ''Non-Clifford angle encountered''"

abbreviation MeasurementOverwritten :: error where
  "MeasurementOverwritten \<equiv> ValueError ''Measurement overwritten''"

abbreviation ShotCountMismatch :: error where
  "ShotCountMismatch \<equiv> ValueError ''The length of n_shots and circuits must match''"

text \<open>The \<open>ValueError\<close> of \<open>list.index\<close> when the element is absent.\<close>

abbreviation NotInList :: error where
  "NotInList \<equiv> ValueError ''is not in list''"

section \<open>The Clifford angle decomposer\<close>

text \<open>
  Angles are IEEE binary64 doubles in the source. A finite double is modelled as the real
  number it denotes; NaN and the infinities are not inputs of the model. The doubling
  \<open>2 * x\<close> of a double is exact unless it overflows, which it does exactly when
  \<open>|x| \<ge> 2^1023\<close>; rounding a double to an integer and converting it to \<open>int\<close> are
  exact.

  \<open>np.round\<close> rounds to the nearest integer, a tie going to the even neighbour.
\<close>

definition np_round :: "real \<Rightarrow> int" where
  "np_round y =
     (let f = \<lfloor>y\<rfloor>; d = y - of_int f
      in if d < 1/2 then f else if 1/2 < d then f + 1 else if even f then f else f + 1)"

text \<open>
  The result of a binary64 operation is the exact result rounded to the nearest double,
  a tie going to the even significand: a double in the binade \<open>2^k \<le> |x| < 2^(k+1)\<close> is
  a multiple of \<open>2^(k-52)\<close>, and below \<open>2^(-1022)\<close> the spacing stays \<open>2^(-1074)\<close>.
  No operation of the closeness test can overflow, since its operands are bounded by the
  doubled angle.
\<close>

definition binade :: "real \<Rightarrow> int" where
  "binade x = max \<lfloor>log 2 \<bar>x\<bar>\<rfloor> (- 1022)"

definition fl :: "real \<Rightarrow> real" where
  "fl x =
     (if x = 0 then 0
      else real_of_int (np_round (x / 2 powr real_of_int (binade x - 52)))
             * 2 powr real_of_int (binade x - 52))"

text \<open>
  \<open>np.isclose(a, b)\<close> with its default tolerances \<open>rtol = 1e-05\<close> and \<open>atol = 1e-08\<close>,
  which are the doubles nearest to these decimals,
  \<open>0x1.4f8b588e368f1p-17\<close> and \<open>0x1.5798ee2308c3ap-27\<close>. The integer \<open>b\<close> is converted to
  a double (the integers that occur are exact doubles) and the test
  \<open>abs(a - b) <= atol + rtol * abs(b)\<close> is evaluated in binary64.
\<close>

definition rtol :: real where "rtol = 5902958103587057 / 2 ^ 69"

definition atol :: real where "atol = 3022314549036573 / 2 ^ 78"

definition np_isclose :: "real \<Rightarrow> int \<Rightarrow> bool" where
  "np_isclose a b \<longleftrightarrow>
     \<bar>fl (a - real_of_int b)\<bar> \<le> fl (atol + fl (rtol * \<bar>real_of_int b\<bar>))"

text \<open>
  \<^verbatim>\<open>
  def _int_double(x: float) -> int:
      y = 2 * x
      n = int(np.round(y))
      if np.isclose(y, n):
          return n % 8
      raise ValueError("Non-Clifford angle encountered")
  \<close>
  When \<open>2 * x\<close> overflows, \<open>y\<close> and \<open>np.round(y)\<close> are infinite and \<open>int\<close> raises
  \<open>OverflowError\<close>. Python's \<open>%\<close> with a positive modulus is HOL's \<open>mod\<close> on \<open>int\<close>.
\<close>

definition int_double :: "real \<Rightarrow> error + int" where
  "int_double x =
     (if 2 ^ 1023 \<le> \<bar>x\<bar> then Inl OverflowError
      else (let y = 2 * x; n = np_round y
            in if np_isclose y n then Inr (n mod 8) else Inl NonCliffordAngle))"

text \<open>
  \<open>Circuit(1)\<close>: one qubit \<open>q[0]\<close>, no bits, no commands, phase 0.
  \<open>circ.S(0)\<close> and \<open>circ.H(0)\<close> append a command on the default-register qubit with
  that index; \<open>circ.add_phase(p)\<close> adds \<open>p\<close> half-turns to the global phase.
\<close>

definition Circuit_n :: "nat \<Rightarrow> Circuit" where
  "Circuit_n n =
     \<lparr>qubits = map (\<lambda>i. Qubit ''q'' [i]) [0..<n], bits = [], commands = [], phase = 0\<rparr>"

definition add_gate :: "OpType \<Rightarrow> nat list \<Rightarrow> Circuit \<Rightarrow> Circuit" where
  "add_gate t idxs circ =
     circ\<lparr>commands := commands circ @ [\<lparr>op_type = t, args = map (\<lambda>i. Qubit ''q'' [i]) idxs\<rparr>]\<rparr>"

definition add_phase :: "real \<Rightarrow> Circuit \<Rightarrow> Circuit" where
  "add_phase p circ = circ\<lparr>phase := phase circ + p\<rparr>"

text \<open>
  \<^verbatim>\<open>
  def _tk1_to_cliff(a: float, b: float, c: float) -> Circuit:
      n_a, n_b, n_c = _int_double(a), _int_double(b), _int_double(c)
      circ = Circuit(1)
      for _ in range(n_c):
          circ.S(0)
      for _ in range(n_b):
          circ.H(0).S(0).H(0)
      for _ in range(n_a):
          circ.S(0)
      circ.add_phase(-0.25 * (n_a + n_b + n_c))
      return circ
  \<close>
  The three calls of \<open>_int_double\<close> run in the order a, b, c and the first failure
  propagates. A loop \<open>for _ in range(n)\<close> is the \<open>nat n\<close>-fold iterate of its body.
\<close>

definition tk1_to_cliff :: "real \<Rightarrow> real \<Rightarrow> real \<Rightarrow> error + Circuit" where
  "tk1_to_cliff a b c =
     (case int_double a of Inl e \<Rightarrow> Inl e | Inr n_a \<Rightarrow>
      case int_double b of Inl e \<Rightarrow> Inl e | Inr n_b \<Rightarrow>
      case int_double c of Inl e \<Rightarrow> Inl e | Inr n_c \<Rightarrow>
        (let circ = Circuit_n 1;
             circ = ((add_gate S [0]) ^^ nat n_c) circ;
             circ = ((add_gate H [0] \<circ> add_gate S [0] \<circ> add_gate H [0]) ^^ nat n_b) circ;
             circ = ((add_gate S [0]) ^^ nat n_a) circ;
             circ = add_phase (- 0.25 * of_int (n_a + n_b + n_c)) circ
         in Inr circ))"

subsection \<open>Unitary semantics of the emitted circuit\<close>

text \<open>
  The matrices below are the host library's documented gate definitions (they are not part
  of the backend's own source): \<open>S = diag(1, i)\<close>, \<open>H = (1/\<surd>2) [[1, 1], [1, -1]]\<close>,
  \<open>Rz(\<alpha>) = diag(e^(-i\<pi>\<alpha>/2), e^(i\<pi>\<alpha>/2))\<close>,
  \<open>Rx(\<alpha>) = [[cos(\<pi>\<alpha>/2), -i sin(\<pi>\<alpha>/2)], [-i sin(\<pi>\<alpha>/2), cos(\<pi>\<alpha>/2)]]\<close>,
  \<open>TK1(\<alpha>, \<beta>, \<gamma>) = Rz(\<alpha>) Rx(\<beta>) Rz(\<gamma>)\<close>, and a global phase of \<open>p\<close> half-turns
  multiplies the unitary by \<open>e^(i\<pi>p)\<close>. A two-by-two complex matrix is written row by row.
\<close>

datatype mat2 = Mat2 complex complex complex complex

fun mat_mult :: "mat2 \<Rightarrow> mat2 \<Rightarrow> mat2" where
  "mat_mult (Mat2 a b c d) (Mat2 e f g h) =
     Mat2 (a * e + b * g) (a * f + b * h) (c * e + d * g) (c * f + d * h)"

fun mat_scale :: "complex \<Rightarrow> mat2 \<Rightarrow> mat2" where
  "mat_scale p (Mat2 a b c d) = Mat2 (p * a) (p * b) (p * c) (p * d)"

definition mat_one :: mat2 where
  "mat_one = Mat2 1 0 0 1"

definition S_unitary :: mat2 where
  "S_unitary = Mat2 1 0 0 \<i>"

definition H_unitary :: mat2 where
  "H_unitary = Mat2 (1 / sqrt 2) (1 / sqrt 2) (1 / sqrt 2) (- 1 / sqrt 2)"

text \<open>Only the two generators on qubit \<open>q[0]\<close> have a meaning in a decomposer output.\<close>

definition gate_unitary :: "Command \<Rightarrow> mat2 option" where
  "gate_unitary cmd =
     (if args cmd = [Qubit ''q'' [0]] then
        (if op_type cmd = S then Some S_unitary
         else if op_type cmd = H then Some H_unitary
         else None)
      else None)"

text \<open>Commands apply in list order, so a later command multiplies from the left.\<close>

fun commands_unitary :: "Command list \<Rightarrow> mat2 option" where
  "commands_unitary [] = Some mat_one"
| "commands_unitary (cmd # cmds) =
     (case gate_unitary cmd of None \<Rightarrow> None
      | Some g \<Rightarrow> (case commands_unitary cmds of None \<Rightarrow> None
                  | Some u \<Rightarrow> Some (mat_mult u g)))"

definition circuit_unitary :: "Circuit \<Rightarrow> mat2 option" where
  "circuit_unitary circ =
     map_option (mat_scale (cis (pi * phase circ))) (commands_unitary (commands circ))"

definition Rz_unitary :: "real \<Rightarrow> mat2" where
  "Rz_unitary \<alpha> = Mat2 (cis (- pi * \<alpha> / 2)) 0 0 (cis (pi * \<alpha> / 2))"

definition Rx_unitary :: "real \<Rightarrow> mat2" where
  "Rx_unitary \<alpha> =
     Mat2 (of_real (cos (pi * \<alpha> / 2))) (- \<i> * of_real (sin (pi * \<alpha> / 2)))
          (- \<i> * of_real (sin (pi * \<alpha> / 2))) (of_real (cos (pi * \<alpha> / 2)))"

definition TK1_unitary :: "real \<Rightarrow> real \<Rightarrow> real \<Rightarrow> mat2" where
  "TK1_unitary a b c = mat_mult (Rz_unitary a) (mat_mult (Rx_unitary b) (Rz_unitary c))"

text \<open>
  An angle is within tolerance of a multiple of one half when its double passes the
  closeness test against its rounding.
\<close>

definition clifford_angle :: "real \<Rightarrow> bool" where
  "clifford_angle x \<longleftrightarrow> np_isclose (2 * x) (np_round (2 * x))"

abbreviation S0 :: Command where
  "S0 \<equiv> \<lparr>op_type = S, args = [Qubit ''q'' [0]]\<rparr>"

abbreviation H0 :: Command where
  "H0 \<equiv> \<lparr>op_type = H, args = [Qubit ''q'' [0]]\<rparr>"

section \<open>The circuit translator\<close>

text \<open>
  The table \<open>_gate\<close>, in the order the source writes it. A Python dict with distinct keys
  is an association list read by \<open>map_of\<close>; \<open>_gate[optype]\<close> raises \<open>KeyError\<close> on a
  missing key; \<open>set(_gate.keys())\<close> is the set of first components.
\<close>

definition gate :: "(OpType \<times> string) list" where
  "gate =
     [(noop, ''I''), (X, ''X''), (Y, ''Y''), (Z, ''Z''), (H, ''H''), (S, ''S''),
      (SX, ''SQRT_X''), (SXdg, ''SQRT_X_DAG''), (CX, ''CX''), (CY, ''CY''), (CZ, ''CZ''),
      (ISWAPMax, ''ISWAP''), (SWAP, ''SWAP''), (Measure, ''M''), (Reset, ''R'')]"

definition gate_lookup :: "OpType \<Rightarrow> error + string" where
  "gate_lookup t = (case map_of gate t of None \<Rightarrow> Inl (KeyError t) | Some s \<Rightarrow> Inr s)"

definition gate_keys :: "OpType set" where
  "gate_keys = set (map fst gate)"

text \<open>\<open>xs.index(x)\<close>: the first position of \<open>x\<close>, or \<open>ValueError\<close>.\<close>

fun index_of :: "'a list \<Rightarrow> 'a \<Rightarrow> error + nat" where
  "index_of [] x = Inl NotInList"
| "index_of (y # ys) x =
     (if y = x then Inr 0
      else (case index_of ys x of Inl e \<Rightarrow> Inl e | Inr i \<Rightarrow> Inr (Suc i)))"

text \<open>\<open>[qubits.index(arg) for arg in args]\<close>: the first failing lookup propagates.\<close>

fun index_all :: "UnitID list \<Rightarrow> UnitID list \<Rightarrow> error + nat list" where
  "index_all qs [] = Inr []"
| "index_all qs (a # as) =
     (case index_of qs a of Inl e \<Rightarrow> Inl e
      | Inr i \<Rightarrow> (case index_all qs as of Inl e \<Rightarrow> Inl e | Inr js \<Rightarrow> Inr (i # js)))"

text \<open>
  The instruction stream handed to the simulator: instruction name and target indices.
  \<open>append_operation\<close> appends one instruction.
\<close>

type_synonym stim_Circuit = "(string \<times> nat list) list"

text \<open>
  One iteration of the loop over \<open>circ.get_commands()\<close>; the state is the stream \<open>c\<close>
  and the list \<open>readout_bits\<close>.
  \<^verbatim>\<open>
        optype = cmd.op.type
        args = cmd.args
        if optype == OpType.Measure:
            qb, cb = args
            assert isinstance(qb, Qubit)
            c.append_operation("M", [qubits.index(qb)])
            readout_bits.append(cb)
        else:
            qbs = [qubits.index(cast("Qubit", arg)) for arg in args]
            c.append_operation(_gate[optype], qbs)
        if len(set(readout_bits)) != len(readout_bits):
            raise ValueError("Measurement overwritten")
  \<close>
  Unpacking \<open>qb, cb = args\<close> raises \<open>ValueError\<close> unless there are exactly two operands.
\<close>

definition translate_command ::
  "UnitID list \<Rightarrow> stim_Circuit \<times> UnitID list \<Rightarrow> Command
     \<Rightarrow> error + stim_Circuit \<times> UnitID list" where
  "translate_command qs st cmd =
     (case st of (c, readout_bits) \<Rightarrow>
        if op_type cmd = Measure then
          (case args cmd of
             [qb, cb] \<Rightarrow>
               (case qb of
                  Qubit r i \<Rightarrow>
                    (case index_of qs qb of Inl e \<Rightarrow> Inl e
                     | Inr k \<Rightarrow> Inr (c @ [(''M'', [k])], readout_bits @ [cb]))
                | Bit r i \<Rightarrow> Inl AssertionError)
           | _ \<Rightarrow> Inl (ValueError ''unpack''))
        else
          (case index_all qs (args cmd) of Inl e \<Rightarrow> Inl e
           | Inr qbs \<Rightarrow>
               (case gate_lookup (op_type cmd) of Inl e \<Rightarrow> Inl e
                | Inr g \<Rightarrow> Inr (c @ [(g, qbs)], readout_bits))))"

definition translate_step ::
  "UnitID list \<Rightarrow> stim_Circuit \<times> UnitID list \<Rightarrow> Command
     \<Rightarrow> error + stim_Circuit \<times> UnitID list" where
  "translate_step qs st cmd =
     (case translate_command qs st cmd of Inl e \<Rightarrow> Inl e
      | Inr st' \<Rightarrow>
          if card (set (snd st')) \<noteq> length (snd st') then Inl MeasurementOverwritten
          else Inr st')"

fun translate_loop ::
  "UnitID list \<Rightarrow> stim_Circuit \<times> UnitID list \<Rightarrow> Command list
     \<Rightarrow> error + stim_Circuit \<times> UnitID list" where
  "translate_loop qs st [] = Inr st"
| "translate_loop qs st (cmd # cmds) =
     (case translate_step qs st cmd of Inl e \<Rightarrow> Inl e
      | Inr st' \<Rightarrow> translate_loop qs st' cmds)"

text \<open>
  The classical bits that the measurements of a command list target, in command order:
  what the ledger holds after a pass in which no command raised.
\<close>

definition measure_targets :: "Command list \<Rightarrow> UnitID list" where
  "measure_targets cmds =
     concat (map (\<lambda>cmd. if op_type cmd = Measure
                         then (case args cmd of [qb, cb] \<Rightarrow> [cb] | _ \<Rightarrow> [])
                         else []) cmds)"

text \<open>
  The translator's input contract: a measurement has a declared qubit and one bit as
  operands; any other command has a tag of the table and declared qubits as operands.
\<close>

definition wf_command :: "UnitID list \<Rightarrow> Command \<Rightarrow> bool" where
  "wf_command qs cmd \<longleftrightarrow>
     (if op_type cmd = Measure then
        (case args cmd of
           [qb, cb] \<Rightarrow> (case qb of Qubit r i \<Rightarrow> qb \<in> set qs | Bit r i \<Rightarrow> False)
         | _ \<Rightarrow> False)
      else op_type cmd \<in> gate_keys \<and> set (args cmd) \<subseteq> set qs)"

section \<open>Sampling and result assembly\<close>

text \<open>
  The simulator is external: \<open>c.compile_sampler().sample(n_shots)\<close> is a parameter of the
  model, a function from the instruction stream and the shot count to an error or a
  matrix of booleans (a list of rows). The shot count of one circuit is an \<open>int\<close>, or
  \<open>None\<close> when the caller passed no count. Every call of the simulator is recorded.
\<close>

type_synonym sampler = "stim_Circuit \<Rightarrow> int option \<Rightarrow> error + bool list list"

datatype BackendResult = BackendResult (shots: "bool list list")

text \<open>
  The state the backend works on: \<open>self._cache\<close> (handle to result), the number of
  \<open>uuid4()\<close> calls made so far, and the calls made to the simulator so far.
\<close>

record World =
  cache :: "string \<rightharpoonup> BackendResult"
  uuid_calls :: nat
  executor_calls :: "(stim_Circuit \<times> int option) list"

text \<open>\<open>range(n_shots)\<close>: empty for a count below one; a \<open>TypeError\<close> for \<open>None\<close>.\<close>

definition py_range :: "int option \<Rightarrow> error + nat list" where
  "py_range n = (case n of None \<Rightarrow> Inl TypeError | Some k \<Rightarrow> Inr [0..<nat k])"

text \<open>\<open>batch[k, i]\<close> with non-negative indices: \<open>IndexError\<close> outside the matrix.\<close>

definition batch_get :: "bool list list \<Rightarrow> nat \<Rightarrow> nat \<Rightarrow> error + bool" where
  "batch_get batch k i =
     (if k < length batch \<and> i < length (batch ! k) then Inr (batch ! k ! i)
      else Inl IndexError)"

text \<open>\<open>[batch[k, readout_bits.index(cb)] for cb in bits]\<close>\<close>

fun readout_row :: "bool list list \<Rightarrow> UnitID list \<Rightarrow> nat \<Rightarrow> UnitID list \<Rightarrow> error + bool list" where
  "readout_row batch readout_bits k [] = Inr []"
| "readout_row batch readout_bits k (cb # cbs) =
     (case index_of readout_bits cb of Inl e \<Rightarrow> Inl e
      | Inr i \<Rightarrow>
          (case batch_get batch k i of Inl e \<Rightarrow> Inl e
           | Inr v \<Rightarrow>
               (case readout_row batch readout_bits k cbs of Inl e \<Rightarrow> Inl e
                | Inr vs \<Rightarrow> Inr (v # vs))))"

text \<open>\<open>[[...] for k in range(n_shots)]\<close>\<close>

fun readouts ::
  "bool list list \<Rightarrow> UnitID list \<Rightarrow> UnitID list \<Rightarrow> nat list \<Rightarrow> error + bool list list" where
  "readouts batch readout_bits bs [] = Inr []"
| "readouts batch readout_bits bs (k # ks) =
     (case readout_row batch readout_bits k bs of Inl e \<Rightarrow> Inl e
      | Inr r \<Rightarrow>
          (case readouts batch readout_bits bs ks of Inl e \<Rightarrow> Inl e
           | Inr rs \<Rightarrow> Inr (r # rs)))"

text \<open>
  \<^verbatim>\<open>
  def _process_one_circuit(circ: Circuit, n_shots: int) -> BackendResult:
      qubits = circ.qubits
      bits = circ.bits
      c = stim.Circuit()
      readout_bits = []
      for cmd in circ.get_commands(): ...
      sampler = c.compile_sampler()
      batch = sampler.sample(n_shots)
      return BackendResult(
          shots=OutcomeArray.from_readouts(
              [[batch[k, readout_bits.index(cb)] for cb in bits] for k in range(n_shots)]
          )
      )
  \<close>
  \<open>OutcomeArray.from_readouts\<close> belongs to the host library: it turns the list of rows
  into a two-dimensional array and raises \<open>ValueError\<close> when the array it gets is not
  two-dimensional, which is the case for the empty list of rows (no shot). The result
  record is modelled as the list of rows.
\<close>

definition from_readouts :: "bool list list \<Rightarrow> error + BackendResult" where
  "from_readouts rows =
     (if rows = []
      then Inl (ValueError ''OutcomeArray must be a two dimensional array of dtype uint8.'')
      else Inr (BackendResult rows))"

definition process_one_circuit ::
  "sampler \<Rightarrow> Circuit \<Rightarrow> int option \<Rightarrow> World \<Rightarrow> (error + BackendResult) \<times> World" where
  "process_one_circuit sample circ n_shots w =
     (case translate_loop (qubits circ) ([], []) (commands circ) of
        Inl e \<Rightarrow> (Inl e, w)
      | Inr (c, readout_bits) \<Rightarrow>
          (let w' = w\<lparr>executor_calls := executor_calls w @ [(c, n_shots)]\<rparr>
           in case sample c n_shots of
                Inl e \<Rightarrow> (Inl e, w')
              | Inr batch \<Rightarrow>
                  (case py_range n_shots of
                     Inl e \<Rightarrow> (Inl e, w')
                   | Inr ks \<Rightarrow>
                       (case readouts batch readout_bits (bits circ) ks of
                          Inl e \<Rightarrow> (Inl e, w')
                        | Inr rows \<Rightarrow> (from_readouts rows, w')))))"

section \<open>Submission and status\<close>

text \<open>
  The predicates a circuit must satisfy, and the host library's check of them
  (\<open>_check_all_circuits\<close> is inherited from the generic backend class, so its meaning is
  taken from the host library's documentation): a circuit passes
  \<open>GateSetPredicate s\<close> when every operation's type is in \<open>s\<close>,
  \<open>DefaultRegisterPredicate\<close> when its units are \<open>q[i]\<close> and \<open>c[i]\<close>, and
  \<open>NoClassicalControlPredicate\<close> when no operation is conditional. The check raises
  \<open>CircuitNotValidError\<close> for the first circuit that fails a predicate.
\<close>

datatype Predicate =
    DefaultRegisterPredicate
  | GateSetPredicate "OpType set"
  | NoClassicalControlPredicate

fun default_unit :: "UnitID \<Rightarrow> bool" where
  "default_unit (Qubit r i) \<longleftrightarrow> r = ''q'' \<and> length i = 1"
| "default_unit (Bit r i) \<longleftrightarrow> r = ''c'' \<and> length i = 1"

fun verify :: "Predicate \<Rightarrow> Circuit \<Rightarrow> bool" where
  "verify DefaultRegisterPredicate circ \<longleftrightarrow>
     list_all default_unit (qubits circ) \<and> list_all default_unit (bits circ)"
| "verify (GateSetPredicate s) circ \<longleftrightarrow>
     list_all (\<lambda>cmd. op_type cmd \<in> s) (commands circ)"
| "verify NoClassicalControlPredicate circ \<longleftrightarrow>
     list_all (\<lambda>cmd. op_type cmd \<noteq> Conditional) (commands circ)"

text \<open>
  \<^verbatim>\<open>
    def required_predicates(self) -> list[Predicate]:
        return [
            DefaultRegisterPredicate(),
            GateSetPredicate(set(_gate.keys())),
            NoClassicalControlPredicate(),
        ]
  \<close>
\<close>

definition required_predicates :: "Predicate list" where
  "required_predicates =
     [DefaultRegisterPredicate, GateSetPredicate gate_keys, NoClassicalControlPredicate]"

definition valid_circuit :: "Circuit \<Rightarrow> bool" where
  "valid_circuit circ \<longleftrightarrow> list_all (\<lambda>p. verify p circ) required_predicates"

fun check_all_circuits_from :: "nat \<Rightarrow> Circuit list \<Rightarrow> error + unit" where
  "check_all_circuits_from i [] = Inr ()"
| "check_all_circuits_from i (circ # circs) =
     (if valid_circuit circ then check_all_circuits_from (Suc i) circs
      else Inl (CircuitNotValidError i))"

definition check_all_circuits :: "Circuit list \<Rightarrow> error + unit" where
  "check_all_circuits circuits = check_all_circuits_from 0 circuits"

text \<open>The argument \<open>n_shots: int | Sequence[int] | None\<close>.\<close>

datatype n_shots_arg = NShotsNone | NShotsInt int | NShotsList "int list"

text \<open>
  The loop of \<open>process_circuits\<close>. \<open>uuid4\<close> is external and random: the model takes the
  sequence of its results as a parameter, and the state counts the calls.
  \<^verbatim>\<open>
        handle_list = []
        for circuit, n_shots_circ in zip(circuits, n_shots_list, strict=False):
            handle = ResultHandle(str(uuid4()))
            self._cache[handle] = {
                "result": _process_one_circuit(circuit, n_shots_circ)
            }
            handle_list.append(handle)
        return handle_list
  \<close>
  An exception of \<open>_process_one_circuit\<close> leaves the loop before the cache is written.
\<close>

fun process_loop ::
  "sampler \<Rightarrow> (nat \<Rightarrow> string) \<Rightarrow> (Circuit \<times> int option) list \<Rightarrow> string list \<Rightarrow> World
     \<Rightarrow> (error + string list) \<times> World" where
  "process_loop sample uuid4 [] handle_list w = (Inr handle_list, w)"
| "process_loop sample uuid4 ((circuit, n_shots_circ) # rest) handle_list w =
     (let handle = uuid4 (uuid_calls w);
          w1 = w\<lparr>uuid_calls := Suc (uuid_calls w)\<rparr>
      in case process_one_circuit sample circuit n_shots_circ w1 of
           (Inl e, w2) \<Rightarrow> (Inl e, w2)
         | (Inr res, w2) \<Rightarrow>
             process_loop sample uuid4 rest (handle_list @ [handle])
               (w2\<lparr>cache := (cache w2)(handle \<mapsto> res)\<rparr>))"

text \<open>
  \<^verbatim>\<open>
        circuits = list(circuits)
        n_shots_list: list[int] = []
        if hasattr(n_shots, "__iter__"):
            n_shots_list = cast("list[int]", n_shots)
            if len(n_shots_list) != len(circuits):
                raise ValueError("The length of n_shots and circuits must match")
        else:
            # convert n_shots to a list
            n_shots_list = [cast("int", n_shots)] * len(circuits)

        if valid_check:
            self._check_all_circuits(circuits)
  \<close>
\<close>

definition n_shots_list_of :: "n_shots_arg \<Rightarrow> Circuit list \<Rightarrow> error + int option list" where
  "n_shots_list_of n_shots circuits =
     (case n_shots of
        NShotsList ns \<Rightarrow>
          if length ns \<noteq> length circuits then Inl ShotCountMismatch else Inr (map Some ns)
      | NShotsInt n \<Rightarrow> Inr (replicate (length circuits) (Some n))
      | NShotsNone \<Rightarrow> Inr (replicate (length circuits) None))"

definition process_circuits ::
  "sampler \<Rightarrow> (nat \<Rightarrow> string) \<Rightarrow> Circuit list \<Rightarrow> n_shots_arg \<Rightarrow> bool \<Rightarrow> World
     \<Rightarrow> (error + string list) \<times> World" where
  "process_circuits sample uuid4 circuits n_shots valid_check w =
     (case n_shots_list_of n_shots circuits of
        Inl e \<Rightarrow> (Inl e, w)
      | Inr n_shots_list \<Rightarrow>
          (case (if valid_check then check_all_circuits circuits else Inr ()) of
             Inl e \<Rightarrow> (Inl e, w)
           | Inr u \<Rightarrow> process_loop sample uuid4 (zip circuits n_shots_list) [] w))"

text \<open>
  \<^verbatim>\<open>
    def circuit_status(self, handle: ResultHandle) -> CircuitStatus:
        if handle in self._cache:
            return CircuitStatus(StatusEnum.COMPLETED)
        raise CircuitNotRunError(handle)
  \<close>
  The state is returned as well, so that what the query leaves behind can be stated.
\<close>

datatype StatusEnum =
  COMPLETED | QUEUED | SUBMITTED | RUNNING | RETRYING | CANCELLING | CANCELLED | ERROR

datatype CircuitStatus = CircuitStatus (status: StatusEnum)

definition circuit_status :: "string \<Rightarrow> World \<Rightarrow> (error + CircuitStatus) \<times> World" where
  "circuit_status handle w =
     (if handle \<in> dom (cache w) then (Inr (CircuitStatus COMPLETED), w)
      else (Inl (CircuitNotRunError handle), w))"

subsection \<open>Stand-ins for the external parts, used in the examples\<close>

text \<open>
  A simulator in which every measurement reads false: one row per shot, one column per
  measurement instruction. It rejects a missing or negative shot count.
\<close>

definition ground_sampler :: sampler where
  "ground_sampler c n =
     (case n of
        None \<Rightarrow> Inl TypeError
      | Some k \<Rightarrow>
          if k < 0 then Inl ExecutorError
          else Inr (replicate (nat k) (replicate (length (filter (\<lambda>ins. fst ins = ''M'') c)) False)))"

text \<open>Handles \<open>h\<close>, \<open>hh\<close>, \<open>hhh\<close>, ... stand for the random strings.\<close>

definition uuid_seq :: "nat \<Rightarrow> string" where
  "uuid_seq n = replicate (Suc n) CHR ''h''"

definition empty_world :: World where
  "empty_world = \<lparr>cache = Map.empty, uuid_calls = 0, executor_calls = []\<rparr>"

text \<open>
  A matrix has the shape the simulator promises when it has one row per shot and one
  column per measurement.
\<close>

definition well_shaped :: "bool list list \<Rightarrow> nat \<Rightarrow> nat \<Rightarrow> bool" where
  "well_shaped batch n m \<longleftrightarrow> length batch = n \<and> list_all (\<lambda>row. length row = m) batch"

text \<open>Example circuits on the default registers.\<close>

definition bell_circuit :: Circuit where
  "bell_circuit =
     \<lparr>qubits = [Qubit ''q'' [0], Qubit ''q'' [1]], bits = [Bit ''c'' [0], Bit ''c'' [1]],
      commands =
        [\<lparr>op_type = H, args = [Qubit ''q'' [0]]\<rparr>,
         \<lparr>op_type = CX, args = [Qubit ''q'' [0], Qubit ''q'' [1]]\<rparr>,
         \<lparr>op_type = Measure, args = [Qubit ''q'' [1], Bit ''c'' [1]]\<rparr>,
         \<lparr>op_type = Measure, args = [Qubit ''q'' [0], Bit ''c'' [0]]\<rparr>],
      phase = 0\<rparr>"

text \<open>Declared bits \<open>c[0], c[1]\<close>, measured in the order \<open>c[1]\<close> then \<open>c[0]\<close>.\<close>

definition swapped_circuit :: Circuit where
  "swapped_circuit =
     \<lparr>qubits = [Qubit ''q'' [0], Qubit ''q'' [1]], bits = [Bit ''c'' [0], Bit ''c'' [1]],
      commands =
        [\<lparr>op_type = Measure, args = [Qubit ''q'' [0], Bit ''c'' [1]]\<rparr>,
         \<lparr>op_type = Measure, args = [Qubit ''q'' [1], Bit ''c'' [0]]\<rparr>],
      phase = 0\<rparr>"

text \<open>The declared bit \<open>c[1]\<close> is never measured.\<close>

definition unmeasured_circuit :: Circuit where
  "unmeasured_circuit =
     \<lparr>qubits = [Qubit ''q'' [0]], bits = [Bit ''c'' [0], Bit ''c'' [1]],
      commands = [\<lparr>op_type = Measure, args = [Qubit ''q'' [0], Bit ''c'' [0]]\<rparr>],
      phase = 0\<rparr>"

text \<open>The bit \<open>c[0]\<close> is measured twice, from two different qubits.\<close>

definition overwriting_circuit :: Circuit where
  "overwriting_circuit =
     \<lparr>qubits = [Qubit ''q'' [0], Qubit ''q'' [1]], bits = [Bit ''c'' [0]],
      commands =
        [\<lparr>op_type = Measure, args = [Qubit ''q'' [0], Bit ''c'' [0]]\<rparr>,
         \<lparr>op_type = Measure, args = [Qubit ''q'' [1], Bit ''c'' [0]]\<rparr>],
      phase = 0\<rparr>"

section \<open>Properties of the decomposer\<close>

lemma funpow_add_gate:
  "((add_gate t idxs) ^^ n) circ =
     circ\<lparr>commands := commands circ @
       replicate n \<lparr>op_type = t, args = map (\<lambda>i. Qubit ''q'' [i]) idxs\<rparr>\<rparr>"
proof (induction n)
  case 0
  show ?case by simp
next
  case (Suc n)
  have "((add_gate t idxs) ^^ Suc n) circ = add_gate t idxs (((add_gate t idxs) ^^ n) circ)"
    by simp
  also have "\<dots> = circ\<lparr>commands := commands circ @
       replicate (Suc n) \<lparr>op_type = t, args = map (\<lambda>i. Qubit ''q'' [i]) idxs\<rparr>\<rparr>"
    unfolding Suc by (simp add: add_gate_def replicate_append_same)
  finally show ?case .
qed

lemma concat_replicate_Suc_right:
  "concat (replicate (Suc n) xs) = concat (replicate n xs) @ xs"
  by (induction n) simp_all

lemma funpow_add_HSH:
  "((add_gate H [0] \<circ> add_gate S [0] \<circ> add_gate H [0]) ^^ n) circ =
     circ\<lparr>commands := commands circ @ concat (replicate n [H0, S0, H0])\<rparr>"
proof (induction n)
  case 0
  show ?case by simp
next
  case (Suc n)
  have "((add_gate H [0] \<circ> add_gate S [0] \<circ> add_gate H [0]) ^^ Suc n) circ =
      (add_gate H [0] \<circ> add_gate S [0] \<circ> add_gate H [0])
        (((add_gate H [0] \<circ> add_gate S [0] \<circ> add_gate H [0]) ^^ n) circ)"
    by simp
  also have "\<dots> = circ\<lparr>commands := commands circ @ concat (replicate (Suc n) [H0, S0, H0])\<rparr>"
    unfolding Suc concat_replicate_Suc_right by (simp add: add_gate_def)
  finally show ?case .
qed

lemma int_double_range: "int_double x = Inr r \<Longrightarrow> 0 \<le> r \<and> r < 8"
  by (auto simp: int_double_def Let_def split: if_splits)

lemma np_round_nearest: "\<bar>y - of_int (np_round y)\<bar> \<le> 1/2"
  unfolding np_round_def Let_def by (simp; linarith)

lemma np_round_of_int: "np_round (of_int n) = n"
  by (simp add: np_round_def)

lemma np_round_nonneg: "0 \<le> y \<Longrightarrow> 0 \<le> np_round y"
  by (auto simp: np_round_def Let_def)

subsection \<open>Binary64 rounding\<close>

lemma fl_zero: "fl 0 = 0"
  by (simp add: fl_def)

lemma fl_nonneg:
  assumes "0 \<le> x"
  shows "0 \<le> fl x"
proof (cases "x = 0")
  case True
  then show ?thesis by (simp add: fl_def)
next
  case False
  from assms have "0 \<le> x / 2 powr real_of_int (binade x - 52)"
    by simp
  from np_round_nonneg [OF this] False show ?thesis
    by (simp add: fl_def)
qed

text \<open>The rounding of a number whose binade is known.\<close>

lemma fl_binade:
  assumes "2 powr real_of_int k \<le> \<bar>x\<bar>" and "\<bar>x\<bar> < 2 powr real_of_int (k + 1)"
    and "- 1022 \<le> k"
  shows "fl x = real_of_int (np_round (x / 2 powr real_of_int (k - 52)))
                  * 2 powr real_of_int (k - 52)"
proof -
  have pos: "0 < \<bar>x\<bar>"
    using assms(1) powr_gt_zero [of 2 "real_of_int k"] by linarith
  then have "\<lfloor>log 2 \<bar>x\<bar>\<rfloor> = k"
    using assms(1,2) by (simp add: floor_log_eq_powr_iff)
  with assms(3) have "binade x = k"
    by (simp add: binade_def)
  with pos show ?thesis
    by (simp add: fl_def)
qed

lemma rtol_pos: "0 < rtol"
  by (simp add: rtol_def)

lemma atol_pos: "0 < atol"
  by (simp add: atol_def)

text \<open>The two tolerances are doubles, and they are the doubles nearest to the decimals.\<close>

lemma fl_atol: "fl atol = atol"
proof -
  have "fl atol = real_of_int (np_round (atol / 2 powr real_of_int (- 27 - 52)))
                  * 2 powr real_of_int (- 27 - 52)"
    by (rule fl_binade) (simp_all add: atol_def powr_neg_numeral)
  also have "\<dots> = atol"
    by (simp add: atol_def np_round_def powr_neg_numeral)
  finally show ?thesis .
qed

lemma fl_rtol: "fl rtol = rtol"
proof -
  have "fl rtol = real_of_int (np_round (rtol / 2 powr real_of_int (- 17 - 52)))
                  * 2 powr real_of_int (- 17 - 52)"
    by (rule fl_binade) (simp_all add: rtol_def powr_neg_numeral)
  also have "\<dots> = rtol"
    by (simp add: rtol_def np_round_def powr_neg_numeral)
  finally show ?thesis .
qed

lemma atol_nearest: "fl (1 / 10 ^ 8) = atol"
proof -
  have "fl (1 / 10 ^ 8) = real_of_int (np_round (1 / 10 ^ 8 / 2 powr real_of_int (- 27 - 52)))
                  * 2 powr real_of_int (- 27 - 52)"
    by (rule fl_binade) (simp_all add: powr_neg_numeral)
  also have "\<dots> = atol"
    by (simp add: atol_def np_round_def powr_neg_numeral)
  finally show ?thesis .
qed

lemma rtol_nearest: "fl (1 / 10 ^ 5) = rtol"
proof -
  have "fl (1 / 10 ^ 5) = real_of_int (np_round (1 / 10 ^ 5 / 2 powr real_of_int (- 17 - 52)))
                  * 2 powr real_of_int (- 17 - 52)"
    by (rule fl_binade) (simp_all add: powr_neg_numeral)
  also have "\<dots> = rtol"
    by (simp add: rtol_def np_round_def powr_neg_numeral)
  finally show ?thesis .
qed

lemma fl_half: "fl (1/2) = 1/2"
proof -
  have "fl (1/2) = real_of_int (np_round (1/2 / 2 powr real_of_int (- 1 - 52)))
                  * 2 powr real_of_int (- 1 - 52)"
    by (rule fl_binade) (simp_all add: powr_neg_numeral)
  also have "\<dots> = 1/2"
    by (simp add: np_round_def powr_neg_numeral)
  finally show ?thesis .
qed

text \<open>An integer is always close to itself: the difference is zero.\<close>

lemma np_isclose_exact: "np_isclose (real_of_int n) n"
proof -
  have "0 \<le> rtol * \<bar>real_of_int n\<bar>"
    using rtol_pos by simp
  from fl_nonneg [OF this] atol_pos have "0 \<le> atol + fl (rtol * \<bar>real_of_int n\<bar>)"
    by simp
  from fl_nonneg [OF this] show ?thesis
    by (simp add: np_isclose_def fl_zero)
qed

lemma int_double_half_integer:
  assumes "\<bar>real_of_int n / 2\<bar> < 2 ^ 1023"
  shows "int_double (real_of_int n / 2) = Inr (n mod 8)"
  using assms by (simp add: int_double_def np_round_of_int np_isclose_exact)

lemma int_double_value:
  "int_double x = Inr r \<Longrightarrow> r = np_round (2 * x) mod 8"
  by (simp add: int_double_def Let_def split: if_splits)

lemma int_double_error:
  "int_double x = Inl e \<Longrightarrow> e = OverflowError \<or> e = NonCliffordAngle"
  by (auto simp: int_double_def Let_def split: if_splits)

lemma tk1_to_cliff_commands:
  assumes "int_double a = Inr n_a" and "int_double b = Inr n_b" and "int_double c = Inr n_c"
  shows "tk1_to_cliff a b c =
     Inr \<lparr>qubits = [Qubit ''q'' [0]], bits = [],
          commands = replicate (nat n_c) S0 @ concat (replicate (nat n_b) [H0, S0, H0])
                       @ replicate (nat n_a) S0,
          phase = - (1/4) * of_int (n_a + n_b + n_c)\<rparr>"
  using assms
  by (simp add: tk1_to_cliff_def funpow_add_gate funpow_add_HSH Circuit_n_def add_phase_def)

text \<open>
  C4. For every accepted triple with residues \<open>n_a\<close>, \<open>n_b\<close>, \<open>n_c\<close> (each in 0..7), the
  decomposer returns the one-qubit circuit whose commands are \<open>n_c\<close> phase gates, then
  \<open>n_b\<close> copies of Hadamard, phase, Hadamard, then \<open>n_a\<close> phase gates, in that order, with
  global phase \<open>-0.25 * (n_a + n_b + n_c)\<close> half-turns.
\<close>

theorem tk1_to_cliff_shape:
  assumes "int_double a = Inr n_a" and "int_double b = Inr n_b" and "int_double c = Inr n_c"
  shows "tk1_to_cliff a b c =
     Inr \<lparr>qubits = [Qubit ''q'' [0]], bits = [],
          commands = replicate (nat n_c) S0 @ concat (replicate (nat n_b) [H0, S0, H0])
                       @ replicate (nat n_a) S0,
          phase = - 0.25 * of_int (n_a + n_b + n_c)\<rparr>
     \<and> 0 \<le> n_a \<and> n_a < 8 \<and> 0 \<le> n_b \<and> n_b < 8 \<and> 0 \<le> n_c \<and> n_c < 8"
  using tk1_to_cliff_commands [OF assms] assms int_double_range by simp

lemma int_double_examples:
  "int_double (1/2) = Inr 1" "int_double 1 = Inr 2" "int_double (3/2) = Inr 3"
  "int_double 0 = Inr 0" "int_double (5/2) = Inr 5"
  using int_double_half_integer [of 1] int_double_half_integer [of 2]
    int_double_half_integer [of 3] int_double_half_integer [of 0] int_double_half_integer [of 5]
  by simp_all

theorem tk1_to_cliff_shape_witness:
  "int_double (1/2) = Inr 1 \<and> int_double 1 = Inr 2 \<and> int_double (3/2) = Inr 3 \<and>
   tk1_to_cliff (1/2) 1 (3/2) =
     Inr \<lparr>qubits = [Qubit ''q'' [0]], bits = [],
          commands = [S0, S0, S0, H0, S0, H0, H0, S0, H0, S0],
          phase = - (3/2)\<rparr>"
proof -
  note a = int_double_examples(1) and b = int_double_examples(2) and c = int_double_examples(3)
  show ?thesis
    using tk1_to_cliff_shape [OF a b c] a b c by (simp add: numeral_eq_Suc)
qed

text \<open>
  At the boundary of the absolute tolerance: the double \<open>5e-9\<close> is half the double
  \<open>1e-8\<close>, its doubling equals \<open>atol\<close>, and the test \<open>atol <= atol + 0\<close> passes.
\<close>

lemma int_double_boundary: "fl (5 / 10 ^ 9) = atol / 2 \<and> int_double (atol / 2) = Inr 0"
proof -
  have "fl (5 / 10 ^ 9) =
      real_of_int (np_round (5 / 10 ^ 9 / 2 powr real_of_int (- 28 - 52)))
        * 2 powr real_of_int (- 28 - 52)"
    by (rule fl_binade) (simp_all add: powr_neg_numeral)
  also have "\<dots> = atol / 2"
    by (simp add: atol_def np_round_def powr_neg_numeral)
  finally have d: "fl (5 / 10 ^ 9) = atol / 2" .
  have r: "np_round atol = 0"
    by (simp add: np_round_def atol_def)
  have "fl (atol + fl (rtol * \<bar>real_of_int 0\<bar>)) = atol"
    by (simp add: fl_zero fl_atol)
  moreover have "\<bar>fl (atol - real_of_int 0)\<bar> = atol"
    using atol_pos by (simp add: fl_atol)
  ultimately have "np_isclose atol 0"
    unfolding np_isclose_def by simp
  with r have "int_double (atol / 2) = Inr 0"
    by (simp add: int_double_def atol_def)
  with d show ?thesis by simp
qed

text \<open>The angle one quarter, a T rotation, is rejected.\<close>

lemma np_round_half: "np_round (1/2) = 0"
  by (simp add: np_round_def)

lemma not_clifford_quarter: "\<not> clifford_angle (1/4)"
proof -
  have "fl (atol + fl (rtol * \<bar>real_of_int 0\<bar>)) = atol"
    by (simp add: fl_zero fl_atol)
  moreover have "\<bar>fl (1/2 - real_of_int 0)\<bar> = 1/2"
    by (simp add: fl_half)
  moreover have "\<not> 1/2 \<le> atol"
    by (simp add: atol_def)
  ultimately have "\<not> np_isclose (1/2) 0"
    unfolding np_isclose_def by simp
  then show ?thesis
    by (simp add: clifford_angle_def np_round_half)
qed

text \<open>
  C3 (as amended). For every parameter \<open>x\<close> whose double \<open>y = 2x\<close> is finite, that is
  \<open>|x| < 2^1023\<close>, and with \<open>n\<close> the rounding of \<open>y\<close> (an integer at distance at most one
  half): if \<open>y\<close> passes the closeness test against \<open>n\<close> then \<open>_int_double\<close> returns
  \<open>n mod 8\<close>, a number in 0..7, and otherwise it raises the non-Clifford-angle error. For
  \<open>|x| \<ge> 2^1023\<close> it raises \<open>OverflowError\<close>. So the decomposition of a triple whose three
  doubles are finite raises the non-Clifford-angle error as soon as one component is not
  within tolerance.
\<close>

theorem int_double_spec:
  "(\<bar>x\<bar> < 2 ^ 1023 \<longrightarrow>
      int_double x =
        (if np_isclose (2 * x) (np_round (2 * x)) then Inr (np_round (2 * x) mod 8)
         else Inl NonCliffordAngle))
   \<and> (2 ^ 1023 \<le> \<bar>x\<bar> \<longrightarrow> int_double x = Inl OverflowError)
   \<and> \<bar>2 * x - of_int (np_round (2 * x))\<bar> \<le> 1/2
   \<and> (\<forall>r. int_double x = Inr r \<longrightarrow> 0 \<le> r \<and> r < 8)
   \<and> (\<bar>a\<bar> < 2 ^ 1023 \<and> \<bar>b\<bar> < 2 ^ 1023 \<and> \<bar>c\<bar> < 2 ^ 1023
        \<and> (\<not> clifford_angle a \<or> \<not> clifford_angle b \<or> \<not> clifford_angle c)
        \<longrightarrow> tk1_to_cliff a b c = Inl NonCliffordAngle)"
proof -
  have 1: "int_double x =
     (if np_isclose (2 * x) (np_round (2 * x)) then Inr (np_round (2 * x) mod 8)
      else Inl NonCliffordAngle)" if "\<bar>x\<bar> < 2 ^ 1023"
    using that by (simp add: int_double_def Let_def)
  have 0: "int_double x = Inl OverflowError" if "2 ^ 1023 \<le> \<bar>x\<bar>"
    using that by (simp add: int_double_def)
  have 2: "\<forall>r. int_double x = Inr r \<longrightarrow> 0 \<le> r \<and> r < 8"
    using int_double_range by blast
  have 3: "tk1_to_cliff a b c = Inl NonCliffordAngle"
    if r: "\<bar>a\<bar> < 2 ^ 1023" "\<bar>b\<bar> < 2 ^ 1023" "\<bar>c\<bar> < 2 ^ 1023"
      and n: "\<not> clifford_angle a \<or> \<not> clifford_angle b \<or> \<not> clifford_angle c"
  proof -
    have e: "int_double t = (if clifford_angle t then Inr (np_round (2 * t) mod 8)
        else Inl NonCliffordAngle)" if "\<bar>t\<bar> < 2 ^ 1023" for t
      using that by (simp add: int_double_def Let_def clifford_angle_def)
    from n show ?thesis
      by (auto simp: tk1_to_cliff_def e [OF r(1)] e [OF r(2)] e [OF r(3)])
  qed
  show ?thesis
    using 0 1 2 3 np_round_nearest by blast
qed

theorem int_double_spec_witness:
  "\<bar>5/2 :: real\<bar> < 2 ^ 1023 \<and> np_isclose (2 * (5/2)) (np_round (2 * (5/2)))
   \<and> int_double (5/2) = Inr 5
   \<and> (2 :: real) ^ 1023 \<le> \<bar>2 ^ 1023\<bar> \<and> int_double (2 ^ 1023) = Inl OverflowError
   \<and> \<not> clifford_angle (1/4) \<and> tk1_to_cliff 0 (1/4) 0 = Inl NonCliffordAngle"
proof -
  have r: "np_round (2 * (5/2)) = 5"
    by (simp add: np_round_def)
  have a: "np_isclose (2 * (5/2)) (np_round (2 * (5/2)))"
    unfolding r using np_isclose_exact [of 5] by simp
  have s: "\<bar>5/2 :: real\<bar> < 2 ^ 1023" "\<bar>0 :: real\<bar> < 2 ^ 1023" "\<bar>1/4 :: real\<bar> < 2 ^ 1023"
    by simp_all
  have o: "(2 :: real) ^ 1023 \<le> \<bar>2 ^ 1023\<bar>"
    by simp
  from int_double_spec [of "5/2" 0 "1/4" 0] int_double_spec [of "2 ^ 1023" 0 0 0]
    a r s o not_clifford_quarter
  show ?thesis by simp
qed

text \<open>
  C3, the unamended claim, fails for a parameter whose doubling overflows. The double
  \<open>2^1023\<close> is an exact multiple of one half, yet \<open>_int_double\<close> neither returns a residue
  nor raises the non-Clifford-angle error: it raises \<open>OverflowError\<close>. And the
  decomposition of \<open>(2^1023, 0.25, 0)\<close>, whose second component is not within tolerance,
  raises \<open>OverflowError\<close> at the first component.
\<close>

theorem int_double_overflow:
  "int_double (2 ^ 1023) = Inl OverflowError
   \<and> int_double (2 ^ 1023) \<noteq> Inr (np_round (2 * 2 ^ 1023) mod 8)
   \<and> int_double (2 ^ 1023) \<noteq> Inl NonCliffordAngle
   \<and> \<not> clifford_angle (1/4)
   \<and> tk1_to_cliff (2 ^ 1023) (1/4) 0 = Inl OverflowError
   \<and> tk1_to_cliff (2 ^ 1023) (1/4) 0 \<noteq> Inl NonCliffordAngle"
proof -
  have o: "int_double (2 ^ 1023) = Inl OverflowError"
    by (simp add: int_double_def)
  then have "tk1_to_cliff (2 ^ 1023) (1/4) 0 = Inl OverflowError"
    by (simp add: tk1_to_cliff_def)
  with o not_clifford_quarter show ?thesis by simp
qed

section \<open>Properties of the translator\<close>

lemma card_set_length_iff: "card (set xs) = length xs \<longleftrightarrow> distinct xs"
  using card_distinct distinct_card by blast

lemma index_of_error: "index_of xs x = Inl e \<Longrightarrow> e = NotInList \<and> x \<notin> set xs"
  by (induction xs arbitrary: e) (auto split: if_splits sum.splits)

lemma index_of_result: "index_of xs x = Inr i \<Longrightarrow> i < length xs \<and> xs ! i = x"
  by (induction xs arbitrary: i) (auto split: if_splits sum.splits)

lemma index_of_member: "x \<in> set xs \<Longrightarrow> \<exists>i. index_of xs x = Inr i"
  by (induction xs) (auto split: sum.splits)

lemma index_of_distinct:
  "distinct xs \<Longrightarrow> i < length xs \<Longrightarrow> index_of xs (xs ! i) = Inr i"
proof (induction xs arbitrary: i)
  case Nil
  then show ?case by simp
next
  case (Cons y ys)
  show ?case
  proof (cases i)
    case 0
    then show ?thesis by simp
  next
    case (Suc j)
    with Cons.prems have "ys ! j \<noteq> y" and "j < length ys" and "distinct ys"
      by auto
    with Cons.IH [of j] Suc show ?thesis by simp
  qed
qed

lemma index_all_error: "index_all qs as = Inl e \<Longrightarrow> e = NotInList"
  by (induction as arbitrary: e) (auto split: sum.splits dest: index_of_error)

lemma index_all_member: "set as \<subseteq> set qs \<Longrightarrow> \<exists>js. index_all qs as = Inr js"
proof (induction as)
  case Nil
  show ?case by simp
next
  case (Cons a as)
  then obtain i js where "index_of qs a = Inr i" and "index_all qs as = Inr js"
    using index_of_member [of a qs] by auto
  then show ?case by simp
qed

lemma gate_keys_eq:
  "gate_keys = {noop, X, Y, Z, H, S, SX, SXdg, CX, CY, CZ, ISWAPMax, SWAP, Measure, Reset}"
  by (simp add: gate_keys_def gate_def)

lemma gate_keys_dom: "gate_keys = dom (map_of gate)"
  by (simp add: gate_keys_def dom_map_of_conv_image_fst)

lemma gate_lookup_total: "t \<in> gate_keys \<Longrightarrow> \<exists>g. gate_lookup t = Inr g"
  unfolding gate_keys_dom gate_lookup_def by (auto split: option.splits)

lemma gate_lookup_error: "gate_lookup t = Inl e \<Longrightarrow> e = KeyError t \<and> t \<notin> gate_keys"
  unfolding gate_keys_dom gate_lookup_def by (auto split: option.splits)

lemma measure_targets_Nil: "measure_targets [] = []"
  by (simp add: measure_targets_def)

lemma measure_targets_Cons:
  "measure_targets (cmd # cmds) = measure_targets [cmd] @ measure_targets cmds"
  by (simp add: measure_targets_def)

lemma measure_targets_append:
  "measure_targets (xs @ ys) = measure_targets xs @ measure_targets ys"
  by (simp add: measure_targets_def)

lemma translate_command_Measure:
  "op_type cmd = Measure \<Longrightarrow> args cmd = [qb, cb] \<Longrightarrow>
     translate_command qs (c, rb) cmd =
       (case qb of
          Qubit r i \<Rightarrow>
            (case index_of qs qb of Inl e \<Rightarrow> Inl e
             | Inr k \<Rightarrow> Inr (c @ [(''M'', [k])], rb @ [cb]))
        | Bit r i \<Rightarrow> Inl AssertionError)"
  by (simp add: translate_command_def)

lemma translate_command_unpack:
  "op_type cmd = Measure \<Longrightarrow> \<forall>qb cb. args cmd \<noteq> [qb, cb] \<Longrightarrow>
     translate_command qs (c, rb) cmd = Inl (ValueError ''unpack'')"
  by (simp add: translate_command_def split: list.splits)

lemma translate_command_other:
  "op_type cmd \<noteq> Measure \<Longrightarrow>
     translate_command qs (c, rb) cmd =
       (case index_all qs (args cmd) of Inl e \<Rightarrow> Inl e
        | Inr qbs \<Rightarrow>
            (case gate_lookup (op_type cmd) of Inl e \<Rightarrow> Inl e
             | Inr g \<Rightarrow> Inr (c @ [(g, qbs)], rb)))"
  by (simp add: translate_command_def)

lemma measure_targets_Measure:
  "op_type cmd = Measure \<Longrightarrow> args cmd = [qb, cb] \<Longrightarrow> measure_targets [cmd] = [cb]"
  by (simp add: measure_targets_def)

lemma measure_targets_other:
  "op_type cmd \<noteq> Measure \<Longrightarrow> measure_targets [cmd] = []"
  by (simp add: measure_targets_def)

lemma translate_command_ledger:
  assumes "translate_command qs (c, rb) cmd = Inr (c', rb')"
  shows "rb' = rb @ measure_targets [cmd]"
proof (cases "op_type cmd = Measure")
  case True
  show ?thesis
  proof (cases "\<exists>qb cb. args cmd = [qb, cb]")
    case False
    with True assms show ?thesis
      by (simp add: translate_command_unpack)
  next
    case yes: True
    then obtain qb cb where a: "args cmd = [qb, cb]" by blast
    from assms show ?thesis
      unfolding translate_command_Measure [OF True a] measure_targets_Measure [OF True a]
      by (simp split: UnitID.splits sum.splits)
  qed
next
  case False
  from assms show ?thesis
    unfolding translate_command_other [OF False] measure_targets_other [OF False]
    by (simp split: sum.splits)
qed

lemma wf_command_Measure:
  assumes "op_type cmd = Measure" and "wf_command qs cmd"
  shows "\<exists>r i cb. args cmd = [Qubit r i, cb] \<and> Qubit r i \<in> set qs"
proof -
  from assms have c: "(case args cmd of
           [qb, cb] \<Rightarrow> (case qb of Qubit r i \<Rightarrow> qb \<in> set qs | Bit r i \<Rightarrow> False)
         | _ \<Rightarrow> False)"
    by (simp add: wf_command_def)
  then obtain qb cb where a: "args cmd = [qb, cb]"
    by (simp split: list.splits)
  with c obtain r i where "qb = Qubit r i" and "qb \<in> set qs"
    by (cases qb) simp_all
  with a show ?thesis by blast
qed

lemma wf_command_other:
  assumes "op_type cmd \<noteq> Measure" and "wf_command qs cmd"
  shows "op_type cmd \<in> gate_keys \<and> set (args cmd) \<subseteq> set qs"
  using assms by (simp add: wf_command_def)

lemma translate_command_wf:
  assumes "wf_command qs cmd"
  shows "\<exists>c'. translate_command qs (c, rb) cmd = Inr (c', rb @ measure_targets [cmd])"
proof (cases "op_type cmd = Measure")
  case True
  from wf_command_Measure [OF True assms] obtain r i cb where
    a: "args cmd = [Qubit r i, cb]" and m: "Qubit r i \<in> set qs"
    by blast
  from index_of_member [OF m] obtain k where k: "index_of qs (Qubit r i) = Inr k"
    by blast
  show ?thesis
    unfolding translate_command_Measure [OF True a] measure_targets_Measure [OF True a]
    by (simp add: k)
next
  case False
  from wf_command_other [OF False assms] have
    t: "op_type cmd \<in> gate_keys" and q: "set (args cmd) \<subseteq> set qs"
    by simp_all
  from gate_lookup_total [OF t] obtain g where g: "gate_lookup (op_type cmd) = Inr g"
    by blast
  from index_all_member [OF q] obtain js where js: "index_all qs (args cmd) = Inr js"
    by blast
  show ?thesis
    unfolding translate_command_other [OF False] measure_targets_other [OF False]
    by (simp add: g js)
qed

lemma translate_command_error:
  assumes "translate_command qs (c, rb) cmd = Inl e"
  shows "e = NotInList \<or> e = AssertionError \<or> e = ValueError ''unpack''
       \<or> (e = KeyError (op_type cmd) \<and> op_type cmd \<notin> gate_keys)"
proof (cases "op_type cmd = Measure")
  case True
  show ?thesis
  proof (cases "\<exists>qb cb. args cmd = [qb, cb]")
    case False
    with True assms show ?thesis
      by (simp add: translate_command_unpack)
  next
    case yes: True
    then obtain qb cb where a: "args cmd = [qb, cb]" by blast
    from assms show ?thesis
      unfolding translate_command_Measure [OF True a]
      by (auto split: UnitID.splits sum.splits dest: index_of_error)
  qed
next
  case False
  from assms show ?thesis
    unfolding translate_command_other [OF False]
    by (auto split: sum.splits dest: index_all_error gate_lookup_error)
qed

lemma translate_loop_append:
  "translate_loop qs st (xs @ ys) =
     (case translate_loop qs st xs of Inl e \<Rightarrow> Inl e | Inr st' \<Rightarrow> translate_loop qs st' ys)"
  by (induction xs arbitrary: st) (auto split: sum.splits)

lemma translate_step_eq:
  "translate_step qs st cmd =
     (case translate_command qs st cmd of Inl e \<Rightarrow> Inl e
      | Inr st' \<Rightarrow> if distinct (snd st') then Inr st' else Inl MeasurementOverwritten)"
  unfolding translate_step_def card_set_length_iff by (simp split: sum.splits)

lemma translate_step_ledger:
  assumes "translate_step qs (c, rb) cmd = Inr (c', rb')"
  shows "rb' = rb @ measure_targets [cmd] \<and> distinct rb'"
proof (cases "translate_command qs (c, rb) cmd")
  case (Inl e)
  with assms show ?thesis by (simp add: translate_step_eq)
next
  case (Inr st')
  with assms have "st' = (c', rb')" and "distinct rb'"
    by (auto simp: translate_step_eq split: if_splits)
  with Inr translate_command_ledger [of qs c rb cmd c' rb'] show ?thesis
    by blast
qed

lemma translate_loop_ledger:
  "translate_loop qs (c, rb) cmds = Inr (c', rb') \<Longrightarrow>
     rb' = rb @ measure_targets cmds \<and> (cmds \<noteq> [] \<longrightarrow> distinct rb')"
proof (induction cmds arbitrary: c rb)
  case Nil
  then show ?case by (simp add: measure_targets_Nil)
next
  case (Cons cmd cmds)
  from Cons.prems obtain c1 rb1 where
    s: "translate_step qs (c, rb) cmd = Inr (c1, rb1)" and
    l: "translate_loop qs (c1, rb1) cmds = Inr (c', rb')"
    by (auto split: sum.splits)
  from translate_step_ledger [OF s] have 1: "rb1 = rb @ measure_targets [cmd]" and 2: "distinct rb1"
    by blast+
  from Cons.IH [OF l] have 3: "rb' = rb1 @ measure_targets cmds" and
    4: "cmds \<noteq> [] \<longrightarrow> distinct rb'"
    by blast+
  have "rb' = rb @ measure_targets (cmd # cmds)"
    using 1 3 measure_targets_Cons [of cmd cmds] by simp
  moreover have "distinct rb'"
  proof (cases cmds)
    case Nil
    with l 2 show ?thesis by simp
  next
    case (Cons x xs)
    with 4 show ?thesis by simp
  qed
  ultimately show ?case by simp
qed

lemma translate_loop_wf:
  assumes "list_all (wf_command qs) cmds" and "distinct (rb @ measure_targets cmds)"
  shows "\<exists>c'. translate_loop qs (c, rb) cmds = Inr (c', rb @ measure_targets cmds)"
  using assms
proof (induction cmds arbitrary: c rb)
  case Nil
  then show ?case by (simp add: measure_targets_Nil)
next
  case (Cons cmd cmds)
  from Cons.prems(1) have wf: "wf_command qs cmd" and wfs: "list_all (wf_command qs) cmds"
    by simp_all
  from translate_command_wf [OF wf] obtain c1 where
    t: "translate_command qs (c, rb) cmd = Inr (c1, rb @ measure_targets [cmd])"
    by blast
  from Cons.prems(2) have d: "distinct ((rb @ measure_targets [cmd]) @ measure_targets cmds)"
    using measure_targets_Cons [of cmd cmds] by simp
  then have "distinct (rb @ measure_targets [cmd])"
    by auto
  with t have s: "translate_step qs (c, rb) cmd = Inr (c1, rb @ measure_targets [cmd])"
    by (simp add: translate_step_eq)
  from Cons.IH [OF wfs d] obtain c' where
    "translate_loop qs (c1, rb @ measure_targets [cmd]) cmds =
       Inr (c', (rb @ measure_targets [cmd]) @ measure_targets cmds)"
    by blast
  with s show ?case
    using measure_targets_Cons [of cmd cmds] by simp
qed

lemma translate_step_overwritten:
  assumes "translate_step qs (c, rb) cmd = Inl MeasurementOverwritten"
  shows "\<not> distinct (rb @ measure_targets [cmd])"
proof (cases "translate_command qs (c, rb) cmd")
  case (Inl e)
  with assms have "e = MeasurementOverwritten"
    by (simp add: translate_step_eq)
  with translate_command_error [OF Inl] show ?thesis
    by simp
next
  case (Inr st')
  obtain c1 rb1 where st': "st' = (c1, rb1)" by (cases st')
  with Inr assms have "\<not> distinct rb1"
    by (auto simp: translate_step_eq split: if_splits)
  moreover from Inr st' translate_command_ledger have "rb1 = rb @ measure_targets [cmd]"
    by blast
  ultimately show ?thesis by blast
qed

lemma translate_loop_overwritten:
  "translate_loop qs (c, rb) cmds = Inl MeasurementOverwritten \<Longrightarrow>
     \<not> distinct (rb @ measure_targets cmds)"
proof (induction cmds arbitrary: c rb)
  case Nil
  then show ?case by simp
next
  case (Cons cmd cmds)
  show ?case
  proof (cases "translate_step qs (c, rb) cmd")
    case (Inl e)
    with Cons.prems have "translate_step qs (c, rb) cmd = Inl MeasurementOverwritten"
      by simp
    from translate_step_overwritten [OF this] show ?thesis
      using measure_targets_Cons [of cmd cmds] by auto
  next
    case (Inr st')
    obtain c1 rb1 where st': "st' = (c1, rb1)" by (cases st')
    from Inr st' translate_step_ledger have rb1: "rb1 = rb @ measure_targets [cmd]"
      by blast
    from Cons.prems Inr st' have "translate_loop qs (c1, rb1) cmds = Inl MeasurementOverwritten"
      by simp
    from Cons.IH [OF this] show ?thesis
      using rb1 measure_targets_Cons [of cmd cmds] by simp
  qed
qed

lemma translate_loop_first_duplicate:
  assumes wf: "list_all (wf_command qs) (pre @ [cmd])"
    and d: "distinct (measure_targets pre)"
    and nd: "\<not> distinct (measure_targets (pre @ [cmd]))"
  shows "translate_loop qs ([], []) (pre @ cmd # post) = Inl MeasurementOverwritten"
proof -
  from wf have wfp: "list_all (wf_command qs) pre" and wfc: "wf_command qs cmd"
    by simp_all
  from translate_loop_wf [OF wfp, of "[]" "[]"] d obtain c1 where
    p: "translate_loop qs ([], []) pre = Inr (c1, measure_targets pre)"
    by auto
  from translate_command_wf [OF wfc] obtain c2 where
    "translate_command qs (c1, measure_targets pre) cmd =
       Inr (c2, measure_targets pre @ measure_targets [cmd])"
    by blast
  with nd have "translate_step qs (c1, measure_targets pre) cmd = Inl MeasurementOverwritten"
    unfolding measure_targets_append by (simp add: translate_step_eq)
  with p show ?thesis
    using translate_loop_append [of qs "([], [])" pre "cmd # post"] by simp
qed

lemma translate_loop_duplicate:
  assumes "list_all (wf_command qs) cmds" and "\<not> distinct (measure_targets cmds)"
  shows "translate_loop qs ([], []) cmds = Inl MeasurementOverwritten"
  using assms
proof (induction cmds rule: rev_induct)
  case Nil
  then show ?case by (simp add: measure_targets_Nil)
next
  case (snoc cmd cmds)
  show ?case
  proof (cases "distinct (measure_targets cmds)")
    case True
    from translate_loop_first_duplicate [OF snoc.prems(1) True snoc.prems(2), of "[]"]
    show ?thesis by simp
  next
    case False
    from snoc.prems(1) have "list_all (wf_command qs) cmds" by simp
    from snoc.IH [OF this False] show ?thesis
      by (simp add: translate_loop_append)
  qed
qed

lemma translate_step_error:
  assumes "translate_step qs (c, rb) cmd = Inl e"
  shows "e = MeasurementOverwritten \<or> e = NotInList \<or> e = AssertionError
     \<or> e = ValueError ''unpack'' \<or> (e = KeyError (op_type cmd) \<and> op_type cmd \<notin> gate_keys)"
proof (cases "translate_command qs (c, rb) cmd")
  case (Inl e')
  with assms have "e' = e" by (simp add: translate_step_eq)
  with translate_command_error [OF Inl] show ?thesis by blast
next
  case (Inr st')
  with assms show ?thesis
    by (simp add: translate_step_eq split: if_splits)
qed

lemma translate_loop_no_KeyError:
  assumes "list_all (\<lambda>cmd. op_type cmd \<in> gate_keys) cmds"
  shows "translate_loop qs (c, rb) cmds \<noteq> Inl (KeyError t)"
  using assms
proof (induction cmds arbitrary: c rb)
  case Nil
  show ?case by simp
next
  case (Cons cmd cmds)
  from Cons.prems have k: "op_type cmd \<in> gate_keys" and
    ks: "list_all (\<lambda>cmd. op_type cmd \<in> gate_keys) cmds"
    by simp_all
  show ?case
  proof (cases "translate_step qs (c, rb) cmd")
    case (Inl e)
    from translate_step_error [OF Inl] k have "e \<noteq> KeyError t"
      by auto
    with Inl show ?thesis by simp
  next
    case (Inr st')
    obtain c1 rb1 where "st' = (c1, rb1)" by (cases st')
    with Inr Cons.IH [OF ks, of c1 rb1] show ?thesis by simp
  qed
qed

lemma valid_circuit_gate_set:
  "valid_circuit circ \<Longrightarrow> list_all (\<lambda>cmd. op_type cmd \<in> gate_keys) (commands circ)"
  by (simp add: valid_circuit_def required_predicates_def)

text \<open>
  C10. The gate set handed to \<open>GateSetPredicate\<close> in \<open>required_predicates\<close> is the key
  set of the table \<open>_gate\<close>, the lookup succeeds on every tag of that set, and for every
  circuit whose operations all have a tag of the set (in particular every circuit that
  passes the required predicates) the translation loop never raises \<open>KeyError\<close>.
\<close>

theorem translation_lookup_total:
  "gate_keys = dom (map_of gate)
   \<and> GateSetPredicate gate_keys \<in> set required_predicates
   \<and> (\<forall>t \<in> gate_keys. \<exists>g. gate_lookup t = Inr g)
   \<and> (list_all (\<lambda>cmd. op_type cmd \<in> gate_keys) (commands circ)
        \<longrightarrow> (\<forall>t. translate_loop (qubits circ) ([], []) (commands circ) \<noteq> Inl (KeyError t)))
   \<and> (valid_circuit circ
        \<longrightarrow> (\<forall>t. translate_loop (qubits circ) ([], []) (commands circ) \<noteq> Inl (KeyError t)))"
  using gate_keys_dom gate_lookup_total translate_loop_no_KeyError valid_circuit_gate_set
  by (simp add: required_predicates_def)

lemma bell_circuit_valid: "valid_circuit bell_circuit"
  by (simp add: valid_circuit_def required_predicates_def bell_circuit_def gate_keys_def gate_def)

lemma translate_bell:
  "translate_loop (qubits bell_circuit) ([], []) (commands bell_circuit) =
     Inr ([(''H'', [0]), (''CX'', [0, 1]), (''M'', [1]), (''M'', [0])],
          [Bit ''c'' [1], Bit ''c'' [0]])"
  by (simp add: bell_circuit_def translate_step_eq translate_command_def gate_lookup_def gate_def)

theorem translation_lookup_total_witness:
  "valid_circuit bell_circuit \<and>
   translate_loop (qubits bell_circuit) ([], []) (commands bell_circuit) \<noteq> Inl (KeyError T) \<and>
   S \<in> gate_keys \<and> gate_lookup S = Inr ''S''"
  using translation_lookup_total [of bell_circuit] bell_circuit_valid
  by (simp add: gate_keys_def gate_lookup_def gate_def)

text \<open>
  C5. Let the commands respect the translator's input contract. If the measurement
  targets of a prefix are distinct and the next command makes them repeat, the loop raises
  the measurement-overwritten error at that command, whatever follows it and whichever
  qubits are measured; so every circuit in which one bit is the target of two measurements
  fails with that error, before the simulator is called. A circuit whose measured bits
  are all distinct never raises it.
\<close>

theorem measurement_overwritten:
  "(list_all (wf_command qs) (pre @ [cmd]) \<and> distinct (measure_targets pre)
      \<and> \<not> distinct (measure_targets (pre @ [cmd]))
      \<longrightarrow> translate_loop qs ([], []) (pre @ cmd # post) = Inl MeasurementOverwritten)
   \<and> (list_all (wf_command (qubits circ)) (commands circ)
        \<and> \<not> distinct (measure_targets (commands circ))
      \<longrightarrow> translate_loop (qubits circ) ([], []) (commands circ) = Inl MeasurementOverwritten
          \<and> process_one_circuit sample circ n_shots w = (Inl MeasurementOverwritten, w))
   \<and> (distinct (measure_targets cmds)
      \<longrightarrow> translate_loop qs' ([], []) cmds \<noteq> Inl MeasurementOverwritten)"
proof -
  have 3: "translate_loop qs' ([], []) cmds \<noteq> Inl MeasurementOverwritten"
    if "distinct (measure_targets cmds)"
    using that translate_loop_overwritten [of qs' "[]" "[]" cmds] by auto
  have 2: "process_one_circuit sample circ n_shots w = (Inl MeasurementOverwritten, w)"
    if "translate_loop (qubits circ) ([], []) (commands circ) = Inl MeasurementOverwritten"
    using that by (simp add: process_one_circuit_def)
  show ?thesis
    using translate_loop_first_duplicate [of qs pre cmd post]
      translate_loop_duplicate [of "qubits circ" "commands circ"] 2 3
    by blast
qed

theorem measurement_overwritten_witness:
  "translate_loop [Qubit ''q'' [0], Qubit ''q'' [1]] ([], [])
     [\<lparr>op_type = Measure, args = [Qubit ''q'' [0], Bit ''c'' [0]]\<rparr>,
      \<lparr>op_type = X, args = [Qubit ''q'' [1]]\<rparr>,
      \<lparr>op_type = Measure, args = [Qubit ''q'' [1], Bit ''c'' [0]]\<rparr>,
      \<lparr>op_type = T, args = [Qubit ''q'' [1]]\<rparr>] = Inl MeasurementOverwritten
   \<and> process_one_circuit ground_sampler overwriting_circuit (Some 5) empty_world
        = (Inl MeasurementOverwritten, empty_world)
   \<and> distinct (measure_targets (commands bell_circuit))
   \<and> translate_loop (qubits bell_circuit) ([], []) (commands bell_circuit)
        \<noteq> Inl MeasurementOverwritten"
proof -
  let ?qs = "[Qubit ''q'' [0], Qubit ''q'' [1]]"
  let ?pre = "[\<lparr>op_type = Measure, args = [Qubit ''q'' [0], Bit ''c'' [0]]\<rparr>,
      \<lparr>op_type = X, args = [Qubit ''q'' [1]]\<rparr>]"
  let ?cmd = "\<lparr>op_type = Measure, args = [Qubit ''q'' [1], Bit ''c'' [0]]\<rparr>"
  let ?post = "[\<lparr>op_type = T, args = [Qubit ''q'' [1]]\<rparr>]"
  have a: "list_all (wf_command ?qs) (?pre @ [?cmd])"
    by (simp add: wf_command_def gate_keys_def gate_def)
  have b: "distinct (measure_targets ?pre)"
    by (simp add: measure_targets_def)
  have c: "\<not> distinct (measure_targets (?pre @ [?cmd]))"
    by (simp add: measure_targets_def)
  have d: "distinct (measure_targets (commands bell_circuit))"
    by (simp add: measure_targets_def bell_circuit_def)
  have e: "list_all (wf_command (qubits overwriting_circuit)) (commands overwriting_circuit)"
    by (simp add: overwriting_circuit_def wf_command_def)
  have f: "\<not> distinct (measure_targets (commands overwriting_circuit))"
    by (simp add: measure_targets_def overwriting_circuit_def)
  show ?thesis
    using measurement_overwritten [of ?qs ?pre ?cmd ?post overwriting_circuit ground_sampler
        "Some 5" empty_world "commands bell_circuit" "qubits bell_circuit"]
      a b c d e f
    by simp
qed

section \<open>Properties of result assembly\<close>

lemma batch_get_result:
  "batch_get batch k i = Inr v \<Longrightarrow> k < length batch \<and> i < length (batch ! k) \<and> v = batch ! k ! i"
  by (simp add: batch_get_def split: if_splits)

lemma readout_row_result:
  assumes "readout_row batch rb k bs = Inr vs"
  shows "length vs = length bs \<and>
     (\<forall>j < length bs. \<exists>i. index_of rb (bs ! j) = Inr i \<and> k < length batch
        \<and> i < length (batch ! k) \<and> vs ! j = batch ! k ! i)"
  using assms
proof (induction bs arbitrary: vs)
  case Nil
  then show ?case by simp
next
  case (Cons cb cbs)
  from Cons.prems obtain i v ws where
    i: "index_of rb cb = Inr i" and v: "batch_get batch k i = Inr v" and
    ws: "readout_row batch rb k cbs = Inr ws" and vs: "vs = v # ws"
    by (auto split: sum.splits)
  from Cons.IH [OF ws] have len: "length ws = length cbs" and
    rest: "\<forall>j < length cbs. \<exists>i. index_of rb (cbs ! j) = Inr i \<and> k < length batch
        \<and> i < length (batch ! k) \<and> ws ! j = batch ! k ! i"
    by blast+
  have "\<exists>i. index_of rb ((cb # cbs) ! j) = Inr i \<and> k < length batch
        \<and> i < length (batch ! k) \<and> vs ! j = batch ! k ! i" if "j < length (cb # cbs)" for j
  proof (cases j)
    case 0
    with i batch_get_result [OF v] vs show ?thesis by simp
  next
    case (Suc j')
    with that have "j' < length cbs" by simp
    with rest Suc vs show ?thesis by simp
  qed
  with len vs show ?case by simp
qed

lemma readouts_result:
  assumes "readouts batch rb bs ks = Inr rows"
  shows "length rows = length ks \<and>
     (\<forall>p < length ks. readout_row batch rb (ks ! p) bs = Inr (rows ! p))"
  using assms
proof (induction ks arbitrary: rows)
  case Nil
  then show ?case by simp
next
  case (Cons k ks)
  from Cons.prems obtain r rs where
    r: "readout_row batch rb k bs = Inr r" and rs: "readouts batch rb bs ks = Inr rs" and
    rows: "rows = r # rs"
    by (auto split: sum.splits)
  from Cons.IH [OF rs] have len: "length rs = length ks" and
    rest: "\<forall>p < length ks. readout_row batch rb (ks ! p) bs = Inr (rs ! p)"
    by blast+
  have "readout_row batch rb ((k # ks) ! p) bs = Inr (rows ! p)" if "p < length (k # ks)" for p
  proof (cases p)
    case 0
    with r rows show ?thesis by simp
  next
    case (Suc p')
    with that have "p' < length ks" by simp
    with rest Suc rows show ?thesis by simp
  qed
  with len rows show ?case by simp
qed

lemma from_readouts_result:
  "from_readouts rows = Inr res \<Longrightarrow> res = BackendResult rows \<and> rows \<noteq> []"
  by (simp add: from_readouts_def split: if_splits)

lemma from_readouts_nonempty: "rows \<noteq> [] \<Longrightarrow> from_readouts rows = Inr (BackendResult rows)"
  by (simp add: from_readouts_def)

lemma process_one_circuit_success:
  assumes "process_one_circuit sample circ n_shots w = (Inr res, w')"
  shows "\<exists>c ledger batch n.
     translate_loop (qubits circ) ([], []) (commands circ) = Inr (c, ledger)
     \<and> sample c n_shots = Inr batch \<and> n_shots = Some n
     \<and> readouts batch ledger (bits circ) [0..<nat n] = Inr (shots res)
     \<and> w' = w\<lparr>executor_calls := executor_calls w @ [(c, n_shots)]\<rparr>"
proof (cases "translate_loop (qubits circ) ([], []) (commands circ)")
  case (Inl e)
  with assms show ?thesis by (simp add: process_one_circuit_def)
next
  case (Inr st)
  obtain c ledger where st: "st = (c, ledger)" by (cases st)
  show ?thesis
  proof (cases "sample c n_shots")
    case (Inl e)
    with assms Inr st show ?thesis by (simp add: process_one_circuit_def)
  next
    case batch: (Inr batch)
    show ?thesis
    proof (cases n_shots)
      case None
      with assms Inr st batch show ?thesis
        by (simp add: process_one_circuit_def py_range_def)
    next
      case (Some n)
      show ?thesis
      proof (cases "readouts batch ledger (bits circ) [0..<nat n]")
        case (Inl e)
        with assms Inr st batch Some show ?thesis
          by (simp add: process_one_circuit_def py_range_def)
      next
        case rows: (Inr rows)
        with assms Inr st batch Some have f: "from_readouts rows = Inr res" and
          "w' = w\<lparr>executor_calls := executor_calls w @ [(c, n_shots)]\<rparr>"
          by (simp_all add: process_one_circuit_def py_range_def)
        with from_readouts_result [OF f] Inr st batch Some rows show ?thesis by simp
      qed
    qed
  qed
qed

text \<open>
  C2. Whenever \<open>_process_one_circuit\<close> returns a result: the ledger is the list of
  measured bits in emission order, the result has one row per shot and one column per
  declared bit, and for every row \<open>k\<close> and every declared bit at position \<open>j\<close> the
  entry at \<open>(k, j)\<close> is the simulator's entry at \<open>(k, i)\<close>, where \<open>i\<close> is the position
  of that bit in the ledger.
\<close>

theorem result_in_declared_order:
  assumes "process_one_circuit sample circ n_shots w = (Inr res, w')"
  shows "\<exists>c ledger batch n.
     translate_loop (qubits circ) ([], []) (commands circ) = Inr (c, ledger)
     \<and> ledger = measure_targets (commands circ)
     \<and> sample c n_shots = Inr batch \<and> n_shots = Some n
     \<and> length (shots res) = nat n
     \<and> (\<forall>k < nat n. length (shots res ! k) = length (bits circ)
          \<and> (\<forall>j < length (bits circ).
                \<exists>i. index_of ledger (bits circ ! j) = Inr i \<and> i < length ledger
                  \<and> ledger ! i = bits circ ! j
                  \<and> shots res ! k ! j = batch ! k ! i))"
proof -
  from process_one_circuit_success [OF assms] obtain c ledger batch n where
    t: "translate_loop (qubits circ) ([], []) (commands circ) = Inr (c, ledger)" and
    s: "sample c n_shots = Inr batch" and n: "n_shots = Some n" and
    r: "readouts batch ledger (bits circ) [0..<nat n] = Inr (shots res)"
    by blast
  from translate_loop_ledger [OF t] have l: "ledger = measure_targets (commands circ)"
    by simp
  from readouts_result [OF r] have len: "length (shots res) = nat n" and
    rows: "\<forall>p < nat n. readout_row batch ledger ([0..<nat n] ! p) (bits circ) = Inr (shots res ! p)"
    by simp_all
  have "length (shots res ! k) = length (bits circ)
          \<and> (\<forall>j < length (bits circ).
                \<exists>i. index_of ledger (bits circ ! j) = Inr i \<and> i < length ledger
                  \<and> ledger ! i = bits circ ! j
                  \<and> shots res ! k ! j = batch ! k ! i)" if "k < nat n" for k
  proof -
    from rows that have "readout_row batch ledger k (bits circ) = Inr (shots res ! k)"
      by simp
    from readout_row_result [OF this] index_of_result show ?thesis
      by metis
  qed
  with t l s n len show ?thesis by blast
qed

theorem result_in_declared_order_witness:
  "process_one_circuit (\<lambda>c n. Inr [[True, False]]) swapped_circuit (Some 1) empty_world =
     (Inr (BackendResult [[False, True]]),
      empty_world\<lparr>executor_calls := [([(''M'', [0]), (''M'', [1])], Some 1)]\<rparr>)
   \<and> measure_targets (commands swapped_circuit) = [Bit ''c'' [1], Bit ''c'' [0]]
   \<and> bits swapped_circuit = [Bit ''c'' [0], Bit ''c'' [1]]
   \<and> (\<exists>c ledger batch n.
         translate_loop (qubits swapped_circuit) ([], []) (commands swapped_circuit)
           = Inr (c, ledger)
         \<and> ledger = measure_targets (commands swapped_circuit)
         \<and> Inr [[True, False]] = Inr batch \<and> Some 1 = Some n
         \<and> length (shots (BackendResult [[False, True]])) = nat n
         \<and> (\<forall>k < nat n.
               length (shots (BackendResult [[False, True]]) ! k) = length (bits swapped_circuit)
               \<and> (\<forall>j < length (bits swapped_circuit).
                     \<exists>i. index_of ledger (bits swapped_circuit ! j) = Inr i \<and> i < length ledger
                       \<and> ledger ! i = bits swapped_circuit ! j
                       \<and> shots (BackendResult [[False, True]]) ! k ! j = batch ! k ! i)))"
proof -
  have e: "process_one_circuit (\<lambda>c n. Inr [[True, False]]) swapped_circuit (Some 1) empty_world =
     (Inr (BackendResult [[False, True]]),
      empty_world\<lparr>executor_calls := [([(''M'', [0]), (''M'', [1])], Some 1)]\<rparr>)"
    by (simp add: process_one_circuit_def swapped_circuit_def translate_step_eq
        translate_command_def py_range_def batch_get_def empty_world_def from_readouts_def)
  have m: "measure_targets (commands swapped_circuit) = [Bit ''c'' [1], Bit ''c'' [0]]"
    by (simp add: measure_targets_def swapped_circuit_def)
  have b: "bits swapped_circuit = [Bit ''c'' [0], Bit ''c'' [1]]"
    by (simp add: swapped_circuit_def)
  from result_in_declared_order [OF e] e m b show ?thesis
    by blast
qed

lemma index_of_not_member: "x \<notin> set xs \<Longrightarrow> index_of xs x = Inl NotInList"
  by (induction xs) auto

lemma readout_row_unmapped:
  assumes "\<exists>cb \<in> set bs. cb \<notin> set rb" and "k < length batch"
    and "length (batch ! k) = length rb"
  shows "readout_row batch rb k bs = Inl NotInList"
  using assms(1)
proof (induction bs)
  case Nil
  then show ?case by simp
next
  case (Cons cb cbs)
  show ?case
  proof (cases "cb \<in> set rb")
    case False
    from index_of_not_member [OF False] show ?thesis by simp
  next
    case True
    from index_of_member [OF True] obtain i where i: "index_of rb cb = Inr i"
      by blast
    from index_of_result [OF i] assms(2,3) have v: "batch_get batch k i = Inr (batch ! k ! i)"
      by (simp add: batch_get_def)
    from Cons.prems True have "\<exists>cb \<in> set cbs. cb \<notin> set rb"
      by auto
    from Cons.IH [OF this] i v show ?thesis by simp
  qed
qed

lemma readout_row_mapped:
  assumes "set bs \<subseteq> set rb" and "k < length batch" and "length (batch ! k) = length rb"
  shows "\<exists>vs. readout_row batch rb k bs = Inr vs"
  using assms(1)
proof (induction bs)
  case Nil
  show ?case by simp
next
  case (Cons cb cbs)
  from Cons.prems have m: "cb \<in> set rb" and r: "set cbs \<subseteq> set rb"
    by simp_all
  from index_of_member [OF m] obtain i where i: "index_of rb cb = Inr i"
    by blast
  from index_of_result [OF i] assms(2,3) have v: "batch_get batch k i = Inr (batch ! k ! i)"
    by (simp add: batch_get_def)
  from Cons.IH [OF r] obtain vs where "readout_row batch rb k cbs = Inr vs"
    by blast
  with i v show ?case by simp
qed

lemma readouts_mapped:
  assumes "set bs \<subseteq> set rb" and "\<forall>k \<in> set ks. k < length batch \<and> length (batch ! k) = length rb"
  shows "\<exists>rows. readouts batch rb bs ks = Inr rows"
  using assms(2)
proof (induction ks)
  case Nil
  show ?case by simp
next
  case (Cons k ks)
  from Cons.prems have k: "k < length batch" and l: "length (batch ! k) = length rb" and
    r: "\<forall>k \<in> set ks. k < length batch \<and> length (batch ! k) = length rb"
    by simp_all
  from readout_row_mapped [OF assms(1) k l] obtain vs where
    vs: "readout_row batch rb k bs = Inr vs"
    by blast
  from Cons.IH [OF r] obtain rows where "readouts batch rb bs ks = Inr rows"
    by blast
  with vs show ?case by simp
qed

lemma well_shaped_row:
  "well_shaped batch n m \<Longrightarrow> k < n \<Longrightarrow> k < length batch \<and> length (batch ! k) = m"
  by (simp add: well_shaped_def list_all_length)

lemma readouts_unmapped:
  assumes "\<exists>cb \<in> set bs. cb \<notin> set rb" and "well_shaped batch n (length rb)" and "0 < n"
  shows "readouts batch rb bs [0..<n] = Inl NotInList"
proof -
  from well_shaped_row [OF assms(2), of 0] assms(3) have
    "0 < length batch" and "length (batch ! 0) = length rb"
    by simp_all
  from readout_row_unmapped [OF assms(1) this] have "readout_row batch rb 0 bs = Inl NotInList" .
  moreover from assms(3) have "[0..<n] = 0 # [1..<n]"
    by (simp add: upt_conv_Cons)
  ultimately show ?thesis by simp
qed

lemma count_list_one_distinct:
  "\<forall>x \<in> set xs. count_list xs x = 1 \<Longrightarrow> distinct xs"
proof (induction xs)
  case Nil
  show ?case by simp
next
  case (Cons x xs)
  from Cons.prems have "count_list xs x = 0"
    by simp
  then have x: "x \<notin> set xs"
    by (simp add: count_list_0_iff)
  have "\<forall>y \<in> set xs. count_list xs y = 1"
  proof
    fix y assume y: "y \<in> set xs"
    with x have "y \<noteq> x" by auto
    moreover from Cons.prems y have "count_list (x # xs) y = 1" by simp
    ultimately show "count_list xs y = 1" by simp
  qed
  from Cons.IH [OF this] x show ?case by simp
qed

lemma count_list_one_position:
  assumes "count_list xs x = 1"
  shows "\<exists>!i. i < length xs \<and> xs ! i = x"
  using assms
proof (induction xs)
  case Nil
  then show ?case by simp
next
  case (Cons y ys)
  show ?case
  proof (cases "y = x")
    case True
    with Cons.prems have "count_list ys x = 0" by simp
    then have n: "x \<notin> set ys" by (simp add: count_list_0_iff)
    show ?thesis
    proof (rule ex1I [of _ 0])
      from True show "0 < length (y # ys) \<and> (y # ys) ! 0 = x" by simp
    next
      fix i assume i: "i < length (y # ys) \<and> (y # ys) ! i = x"
      show "i = 0"
      proof (cases i)
        case 0
        then show ?thesis .
      next
        case (Suc j)
        with i have "j < length ys" and "ys ! j = x" by simp_all
        then have "x \<in> set ys" by auto
        with n show ?thesis by simp
      qed
    qed
  next
    case False
    with Cons.prems have "count_list ys x = 1" by simp
    from Cons.IH [OF this] obtain j where j: "j < length ys \<and> ys ! j = x" and
      u: "\<And>j'. j' < length ys \<and> ys ! j' = x \<Longrightarrow> j' = j"
      by blast
    show ?thesis
    proof (rule ex1I [of _ "Suc j"])
      from j show "Suc j < length (y # ys) \<and> (y # ys) ! Suc j = x" by simp
    next
      fix i assume i: "i < length (y # ys) \<and> (y # ys) ! i = x"
      show "i = Suc j"
      proof (cases i)
        case 0
        with i False show ?thesis by simp
      next
        case (Suc j')
        with i have "j' < length ys \<and> ys ! j' = x" by simp
        from u [OF this] Suc show ?thesis by simp
      qed
    qed
  qed
qed

lemma process_one_circuit_eq:
  assumes "translate_loop (qubits circ) ([], []) (commands circ) = Inr (c, ledger)"
    and "sample c (Some n) = Inr batch"
  shows "process_one_circuit sample circ (Some n) w =
     (case readouts batch ledger (bits circ) [0..<nat n] of
        Inl e \<Rightarrow> Inl e | Inr rows \<Rightarrow> from_readouts rows,
      w\<lparr>executor_calls := executor_calls w @ [(c, Some n)]\<rparr>)"
  using assms by (simp add: process_one_circuit_def py_range_def split: sum.splits)

lemma process_one_circuit_calls:
  assumes "translate_loop (qubits circ) ([], []) (commands circ) = Inr (c, ledger)"
  shows "snd (process_one_circuit sample circ n_shots w) =
           w\<lparr>executor_calls := executor_calls w @ [(c, n_shots)]\<rparr>"
  using assms by (simp add: process_one_circuit_def Let_def split: sum.splits)

lemma translate_swapped:
  "translate_loop (qubits swapped_circuit) ([], []) (commands swapped_circuit) =
     Inr ([(''M'', [0]), (''M'', [1])], [Bit ''c'' [1], Bit ''c'' [0]])"
  by (simp add: swapped_circuit_def translate_step_eq translate_command_def)

lemma translate_unmeasured:
  "translate_loop (qubits unmeasured_circuit) ([], []) (commands unmeasured_circuit) =
     Inr ([(''M'', [0])], [Bit ''c'' [0]])"
  by (simp add: unmeasured_circuit_def translate_step_eq translate_command_def)

lemma swapped_circuit_valid: "valid_circuit swapped_circuit"
  by (simp add: valid_circuit_def required_predicates_def swapped_circuit_def gate_keys_def gate_def)

text \<open>
  C8 (as amended). Let the translation of a circuit succeed, let the shot count \<open>n\<close> be at
  least one, and let the simulator return a matrix of \<open>n\<close> rows and one column per ledger
  entry. If some declared bit is never the target of a measurement, result assembly
  raises the \<open>ValueError\<close> of the failed ledger lookup and no result is produced. If each
  declared bit is measured exactly once, each declared bit has exactly one ledger position
  and assembly succeeds.
\<close>

theorem unmapped_output:
  assumes "translate_loop (qubits circ) ([], []) (commands circ) = Inr (c, ledger)"
    and "sample c (Some n) = Inr batch"
    and "well_shaped batch (nat n) (length ledger)"
    and "0 < n"
  shows "((\<exists>cb \<in> set (bits circ). cb \<notin> set (measure_targets (commands circ)))
          \<longrightarrow> fst (process_one_circuit sample circ (Some n) w) = Inl NotInList)
     \<and> ((\<forall>cb \<in> set (bits circ). count_list (measure_targets (commands circ)) cb = 1)
          \<longrightarrow> (\<forall>cb \<in> set (bits circ). \<exists>!i. i < length ledger \<and> ledger ! i = cb)
              \<and> (\<exists>rows. fst (process_one_circuit sample circ (Some n) w)
                     = Inr (BackendResult rows)))"
proof -
  from translate_loop_ledger [OF assms(1)] have l: "ledger = measure_targets (commands circ)"
    by simp
  note eq = process_one_circuit_eq [of circ c ledger sample n batch w, OF assms(1,2)]
  have 1: "fst (process_one_circuit sample circ (Some n) w) = Inl NotInList"
    if "\<exists>cb \<in> set (bits circ). cb \<notin> set (measure_targets (commands circ))"
  proof -
    from assms(4) have "0 < nat n" by simp
    from readouts_unmapped [OF that [folded l] assms(3) this]
    show ?thesis
      by (simp add: eq)
  qed
  have 2: "\<exists>!i. i < length ledger \<and> ledger ! i = cb"
    if "\<forall>cb \<in> set (bits circ). count_list (measure_targets (commands circ)) cb = 1"
      and "cb \<in> set (bits circ)" for cb
    using that count_list_one_position [of ledger cb] l by simp
  have 3: "\<exists>rows. fst (process_one_circuit sample circ (Some n) w) = Inr (BackendResult rows)"
    if a: "\<forall>cb \<in> set (bits circ). count_list (measure_targets (commands circ)) cb = 1"
  proof -
    have "cb \<in> set ledger" if "cb \<in> set (bits circ)" for cb
    proof -
      from a that l have "count_list ledger cb \<noteq> 0" by simp
      then show ?thesis by (simp add: count_list_0_iff)
    qed
    then have s: "set (bits circ) \<subseteq> set ledger" by blast
    have "\<forall>k \<in> set [0..<nat n]. k < length batch \<and> length (batch ! k) = length ledger"
      using well_shaped_row [OF assms(3)] by simp
    from readouts_mapped [OF s this] obtain rows where
      r: "readouts batch ledger (bits circ) [0..<nat n] = Inr rows"
      by blast
    from readouts_result [OF r] assms(4) have "rows \<noteq> []"
      by auto
    from from_readouts_nonempty [OF this] r show ?thesis
      by (simp add: eq)
  qed
  from 1 2 3 show ?thesis by blast
qed

theorem unmapped_output_witness:
  "fst (process_one_circuit ground_sampler unmeasured_circuit (Some 2) empty_world) = Inl NotInList
   \<and> (\<exists>!i. i < length [Bit ''c'' [1], Bit ''c'' [0]]
            \<and> [Bit ''c'' [1], Bit ''c'' [0]] ! i = Bit ''c'' [0])
   \<and> (\<exists>!i. i < length [Bit ''c'' [1], Bit ''c'' [0]]
            \<and> [Bit ''c'' [1], Bit ''c'' [0]] ! i = Bit ''c'' [1])
   \<and> (\<exists>rows. fst (process_one_circuit ground_sampler swapped_circuit (Some 2) empty_world)
         = Inr (BackendResult rows))"
proof -
  have b0: "Bit ''c'' [0] \<in> set (bits swapped_circuit)"
    and b1: "Bit ''c'' [1] \<in> set (bits swapped_circuit)"
    by (simp_all add: swapped_circuit_def)
  have s1: "ground_sampler [(''M'', [0])] (Some 2) = Inr [[False], [False]]"
    by (simp add: ground_sampler_def numeral_eq_Suc)
  have w1: "well_shaped [[False], [False]] (nat 2) (length [Bit ''c'' [0]])"
    by (simp add: well_shaped_def)
  have u: "\<exists>cb \<in> set (bits unmeasured_circuit).
             cb \<notin> set (measure_targets (commands unmeasured_circuit))"
    by (simp add: unmeasured_circuit_def measure_targets_def)
  have s2: "ground_sampler [(''M'', [0]), (''M'', [1])] (Some 2)
              = Inr [[False, False], [False, False]]"
    by (simp add: ground_sampler_def numeral_eq_Suc)
  have w2: "well_shaped [[False, False], [False, False]] (nat 2)
              (length [Bit ''c'' [1], Bit ''c'' [0]])"
    by (simp add: well_shaped_def)
  have m: "\<forall>cb \<in> set (bits swapped_circuit).
             count_list (measure_targets (commands swapped_circuit)) cb = 1"
    by (simp add: swapped_circuit_def measure_targets_def)
  have p: "(0::int) < 2" by simp
  from unmapped_output [of unmeasured_circuit "[(''M'', [0])]" "[Bit ''c'' [0]]" ground_sampler 2
        "[[False], [False]]" empty_world, OF translate_unmeasured s1 w1 p] u
    unmapped_output [of swapped_circuit "[(''M'', [0]), (''M'', [1])]"
        "[Bit ''c'' [1], Bit ''c'' [0]]" ground_sampler 2 "[[False, False], [False, False]]"
        empty_world, OF translate_swapped s2 w2 p] m b0 b1
  show ?thesis by blast
qed

text \<open>
  C8, the unamended claim, fails for a shot count of zero: in \<open>swapped_circuit\<close> each
  declared bit is measured exactly once, the simulator returns a matrix with no row, no
  row is assembled, and \<open>from_readouts\<close> raises \<open>ValueError\<close> on the empty list, so
  assembly does not succeed.
\<close>

theorem assembly_fails_without_shots:
  "bits swapped_circuit = [Bit ''c'' [0], Bit ''c'' [1]]
   \<and> count_list (measure_targets (commands swapped_circuit)) (Bit ''c'' [0]) = 1
   \<and> count_list (measure_targets (commands swapped_circuit)) (Bit ''c'' [1]) = 1
   \<and> ground_sampler [(''M'', [0]), (''M'', [1])] (Some 0) = Inr []
   \<and> process_one_circuit ground_sampler swapped_circuit (Some 0) empty_world
       = (Inl (ValueError ''OutcomeArray must be a two dimensional array of dtype uint8.''),
          empty_world\<lparr>executor_calls := [([(''M'', [0]), (''M'', [1])], Some 0)]\<rparr>)"
proof -
  have b: "bits swapped_circuit = [Bit ''c'' [0], Bit ''c'' [1]]"
    by (simp add: swapped_circuit_def)
  have m: "measure_targets (commands swapped_circuit) = [Bit ''c'' [1], Bit ''c'' [0]]"
    by (simp add: swapped_circuit_def measure_targets_def)
  have s: "ground_sampler [(''M'', [0]), (''M'', [1])] (Some 0) = Inr []"
    by (simp add: ground_sampler_def)
  have p: "process_one_circuit ground_sampler swapped_circuit (Some 0) empty_world
       = (Inl (ValueError ''OutcomeArray must be a two dimensional array of dtype uint8.''),
          empty_world\<lparr>executor_calls := [([(''M'', [0]), (''M'', [1])], Some 0)]\<rparr>)"
    using process_one_circuit_eq [of swapped_circuit "[(''M'', [0]), (''M'', [1])]"
        "[Bit ''c'' [1], Bit ''c'' [0]]" ground_sampler 0 "[]" empty_world,
        OF translate_swapped s]
    by (simp add: from_readouts_def empty_world_def)
  from b m s p show ?thesis by simp
qed

section \<open>Properties of submission and status\<close>

lemma process_one_circuit_cache:
  "cache (snd (process_one_circuit sample circ n_shots w)) = cache w"
  by (simp add: process_one_circuit_def Let_def split: sum.splits prod.splits)

lemma process_loop_Cons:
  "process_loop sample uuid4 ((circuit, n) # rest) hl w =
     (case fst (process_one_circuit sample circuit n (w\<lparr>uuid_calls := Suc (uuid_calls w)\<rparr>)) of
        Inl e \<Rightarrow> (Inl e, snd (process_one_circuit sample circuit n (w\<lparr>uuid_calls := Suc (uuid_calls w)\<rparr>)))
      | Inr res \<Rightarrow>
          process_loop sample uuid4 rest (hl @ [uuid4 (uuid_calls w)])
            ((snd (process_one_circuit sample circuit n (w\<lparr>uuid_calls := Suc (uuid_calls w)\<rparr>)))
               \<lparr>cache := (cache (snd (process_one_circuit sample circuit n
                   (w\<lparr>uuid_calls := Suc (uuid_calls w)\<rparr>))))(uuid4 (uuid_calls w) \<mapsto> res)\<rparr>))"
  by (simp add: Let_def split: prod.splits sum.splits)

lemma process_loop_handles:
  assumes "process_loop sample uuid4 cs hl w = (Inr hs, w')" and "set hl \<subseteq> dom (cache w)"
  shows "set hs \<subseteq> dom (cache w')"
  using assms
proof (induction cs arbitrary: hl w)
  case Nil
  then show ?case by auto
next
  case (Cons a cs)
  obtain circuit n where a: "a = (circuit, n)" by (cases a)
  let ?w1 = "w\<lparr>uuid_calls := Suc (uuid_calls w)\<rparr>"
  let ?p = "process_one_circuit sample circuit n ?w1"
  let ?h = "uuid4 (uuid_calls w)"
  show ?case
  proof (cases "fst ?p")
    case (Inl e)
    with Cons.prems(1) a show ?thesis
      by (simp only: process_loop_Cons) simp
  next
    case (Inr res)
    let ?w3 = "(snd ?p)\<lparr>cache := (cache (snd ?p))(?h \<mapsto> res)\<rparr>"
    from Cons.prems(1) a Inr have l: "process_loop sample uuid4 cs (hl @ [?h]) ?w3 = (Inr hs, w')"
      by (simp only: process_loop_Cons) simp
    have "cache (snd ?p) = cache w"
      by (simp add: process_one_circuit_cache)
    with Cons.prems(2) have "set (hl @ [?h]) \<subseteq> dom (cache ?w3)"
      by auto
    from Cons.IH [OF l this] show ?thesis .
  qed
qed

lemma process_circuits_handles:
  assumes "process_circuits sample uuid4 circuits n_shots valid_check w = (Inr hs, w')"
  shows "set hs \<subseteq> dom (cache w')"
proof -
  from assms obtain l where
    "process_loop sample uuid4 (zip circuits l) [] w = (Inr hs, w')"
    by (auto simp: process_circuits_def split: sum.splits if_splits)
  from process_loop_handles [OF this] show ?thesis by simp
qed

text \<open>
  C7. \<open>circuit_status\<close> returns \<open>COMPLETED\<close> exactly when the handle is in the cache and
  raises \<open>CircuitNotRunError\<close> otherwise; it returns no other status; it leaves the
  state, and so the cached result, as it was, so that a second query gives the same
  answer; and every handle returned by \<open>process_circuits\<close> is \<open>COMPLETED\<close> in the state
  that call leaves behind.
\<close>

theorem circuit_status_spec:
  "(fst (circuit_status h w) = Inr (CircuitStatus COMPLETED) \<longleftrightarrow> h \<in> dom (cache w))
   \<and> (h \<notin> dom (cache w) \<longrightarrow> fst (circuit_status h w) = Inl (CircuitNotRunError h))
   \<and> (\<forall>s. fst (circuit_status h w) = Inr s \<longrightarrow> s = CircuitStatus COMPLETED)
   \<and> snd (circuit_status h w) = w
   \<and> circuit_status h (snd (circuit_status h w)) = circuit_status h w
   \<and> cache (snd (circuit_status h w)) h = cache w h
   \<and> (process_circuits sample uuid4 circuits n_shots valid_check w0 = (Inr hs, w1)
        \<longrightarrow> (\<forall>h' \<in> set hs. fst (circuit_status h' w1) = Inr (CircuitStatus COMPLETED)))"
proof -
  have "\<forall>h' \<in> set hs. fst (circuit_status h' w1) = Inr (CircuitStatus COMPLETED)"
    if "process_circuits sample uuid4 circuits n_shots valid_check w0 = (Inr hs, w1)"
    using process_circuits_handles [OF that] by (auto simp: circuit_status_def)
  then show ?thesis
    by (simp add: circuit_status_def)
qed

theorem circuit_status_spec_witness:
  "process_circuits ground_sampler uuid_seq [swapped_circuit] (NShotsInt 2) True empty_world
     = (Inr [''h''],
        \<lparr>cache = [''h'' \<mapsto> BackendResult [[False, False], [False, False]]], uuid_calls = 1,
         executor_calls = [([(''M'', [0]), (''M'', [1])], Some 2)]\<rparr>)
   \<and> fst (circuit_status ''h''
        \<lparr>cache = [''h'' \<mapsto> BackendResult [[False, False], [False, False]]], uuid_calls = 1,
         executor_calls = [([(''M'', [0]), (''M'', [1])], Some 2)]\<rparr>)
       = Inr (CircuitStatus COMPLETED)
   \<and> ''hh'' \<notin> dom (cache empty_world)
   \<and> fst (circuit_status ''hh'' empty_world) = Inl (CircuitNotRunError ''hh'')"
proof -
  let ?w1 = "\<lparr>cache = [''h'' \<mapsto> BackendResult [[False, False], [False, False]]], uuid_calls = 1,
         executor_calls = [([(''M'', [0]), (''M'', [1])], Some 2)]\<rparr>"
  have b: "bits swapped_circuit = [Bit ''c'' [0], Bit ''c'' [1]]"
    by (simp add: swapped_circuit_def)
  have s2: "ground_sampler [(''M'', [0]), (''M'', [1])] (Some 2)
              = Inr [[False, False], [False, False]]"
    by (simp add: ground_sampler_def numeral_eq_Suc)
  have p: "process_one_circuit ground_sampler swapped_circuit (Some 2) w =
      (Inr (BackendResult [[False, False], [False, False]]),
       w\<lparr>executor_calls := executor_calls w @ [([(''M'', [0]), (''M'', [1])], Some 2)]\<rparr>)" for w
    using process_one_circuit_eq [of swapped_circuit "[(''M'', [0]), (''M'', [1])]"
        "[Bit ''c'' [1], Bit ''c'' [0]]" ground_sampler 2 "[[False, False], [False, False]]" w,
        OF translate_swapped s2]
    by (simp add: b batch_get_def upt_rec from_readouts_def)
  have e: "process_circuits ground_sampler uuid_seq [swapped_circuit] (NShotsInt 2) True empty_world
     = (Inr [''h''], ?w1)"
    by (simp add: swapped_circuit_valid process_circuits_def n_shots_list_of_def
      check_all_circuits_def p empty_world_def uuid_seq_def Let_def)
  have n: "''hh'' \<notin> dom (cache empty_world)"
    by (simp add: empty_world_def)
  from circuit_status_spec [of "''hh''" empty_world ground_sampler uuid_seq "[swapped_circuit]"
      "NShotsInt 2" True empty_world "[''h'']" ?w1] e n
  show ?thesis by simp
qed

text \<open>
  C6. When a list of shot counts is given whose length differs from the number of
  circuits, \<open>process_circuits\<close> raises the length-mismatch error and the state is the one
  it started from: no handle was drawn, the cache is unchanged and the simulator was not
  called.
\<close>

theorem shot_count_mismatch:
  assumes "length ns \<noteq> length circuits"
  shows "process_circuits sample uuid4 circuits (NShotsList ns) valid_check w
           = (Inl ShotCountMismatch, w)"
  using assms by (simp add: process_circuits_def n_shots_list_of_def)

theorem shot_count_mismatch_witness:
  "length [1, 2 :: int] \<noteq> length [bell_circuit, swapped_circuit, unmeasured_circuit]
   \<and> process_circuits ground_sampler uuid_seq [bell_circuit, swapped_circuit, unmeasured_circuit]
        (NShotsList [1, 2]) True empty_world = (Inl ShotCountMismatch, empty_world)"
proof -
  have "length [1, 2 :: int] \<noteq> length [bell_circuit, swapped_circuit, unmeasured_circuit]"
    by simp
  from shot_count_mismatch [OF this] this show ?thesis by blast
qed

lemma process_loop_single_calls:
  assumes "translate_loop (qubits circ) ([], []) (commands circ) = Inr (c, ledger)"
  shows "executor_calls (snd (process_loop sample uuid4 [(circ, n)] hl w))
           = executor_calls w @ [(c, n)]"
proof -
  let ?w1 = "w\<lparr>uuid_calls := Suc (uuid_calls w)\<rparr>"
  have s: "snd (process_one_circuit sample circ n ?w1)
           = ?w1\<lparr>executor_calls := executor_calls ?w1 @ [(c, n)]\<rparr>"
    by (rule process_one_circuit_calls [OF assms])
  show ?thesis
    by (cases "fst (process_one_circuit sample circ n ?w1)")
      (simp_all only: process_loop_Cons s, simp_all)
qed

text \<open>
  C9 (as amended). The sign of a shot count is not checked anywhere: a single count is
  copied to every circuit and a list of the right length is taken as it is, and for every
  circuit whose translation succeeds the simulator is called with the instruction stream
  and that very count, whatever its sign; any rejection of a count below one comes from
  the simulator or later.
\<close>

theorem shot_count_unchecked:
  "n_shots_list_of (NShotsInt n) circuits = Inr (replicate (length circuits) (Some n))
   \<and> (length ns = length circuits \<longrightarrow> n_shots_list_of (NShotsList ns) circuits = Inr (map Some ns))
   \<and> (translate_loop (qubits circ) ([], []) (commands circ) = Inr (c, ledger)
        \<longrightarrow> executor_calls (snd (process_one_circuit sample circ n_shots w))
              = executor_calls w @ [(c, n_shots)]
          \<and> ((valid_check \<longrightarrow> valid_circuit circ)
              \<longrightarrow> executor_calls
                    (snd (process_circuits sample uuid4 [circ] (NShotsInt n) valid_check w))
                  = executor_calls w @ [(c, Some n)]))"
proof -
  have 1: "executor_calls (snd (process_one_circuit sample circ n_shots w))
              = executor_calls w @ [(c, n_shots)]"
    if "translate_loop (qubits circ) ([], []) (commands circ) = Inr (c, ledger)"
    by (simp add: process_one_circuit_calls [OF that])
  have 2: "executor_calls (snd (process_circuits sample uuid4 [circ] (NShotsInt n) valid_check w))
                  = executor_calls w @ [(c, Some n)]"
    if t: "translate_loop (qubits circ) ([], []) (commands circ) = Inr (c, ledger)"
      and v: "valid_check \<longrightarrow> valid_circuit circ"
  proof -
    from v have "process_circuits sample uuid4 [circ] (NShotsInt n) valid_check w
        = process_loop sample uuid4 [(circ, Some n)] [] w"
      by (simp add: process_circuits_def n_shots_list_of_def check_all_circuits_def)
    with process_loop_single_calls [OF t] show ?thesis by simp
  qed
  from 1 2 show ?thesis
    by (simp add: n_shots_list_of_def)
qed

theorem shot_count_unchecked_witness:
  "n_shots_list_of (NShotsList [0, - 3]) [swapped_circuit, bell_circuit] = Inr [Some 0, Some (- 3)]
   \<and> executor_calls (snd (process_one_circuit ground_sampler swapped_circuit (Some (- 3)) empty_world))
       = [([(''M'', [0]), (''M'', [1])], Some (- 3))]
   \<and> executor_calls (snd (process_circuits ground_sampler uuid_seq [swapped_circuit]
         (NShotsInt (- 3)) True empty_world))
       = [([(''M'', [0]), (''M'', [1])], Some (- 3))]"
  using shot_count_unchecked [of "- 3" "[swapped_circuit, bell_circuit]" "[0, - 3]"
      swapped_circuit "[(''M'', [0]), (''M'', [1])]" "[Bit ''c'' [1], Bit ''c'' [0]]"
      ground_sampler "Some (- 3)" empty_world True uuid_seq]
    translate_swapped swapped_circuit_valid
  by (simp add: empty_world_def)

text \<open>
  C9, the unamended claim, fails: with a shot count of -1 or 0 the simulator is called
  with that count; with -1 the error that reaches the caller is the simulator's own.
\<close>

theorem nonpositive_shots_reach_executor:
  "valid_circuit swapped_circuit
   \<and> process_circuits ground_sampler uuid_seq [swapped_circuit] (NShotsInt (- 1)) True empty_world
       = (Inl ExecutorError,
          \<lparr>cache = Map.empty, uuid_calls = 1,
           executor_calls = [([(''M'', [0]), (''M'', [1])], Some (- 1))]\<rparr>)
   \<and> executor_calls (snd (process_circuits ground_sampler uuid_seq [swapped_circuit]
         (NShotsInt 0) True empty_world))
       = [([(''M'', [0]), (''M'', [1])], Some 0)]"
  by (simp add: swapped_circuit_valid process_circuits_def n_shots_list_of_def
      check_all_circuits_def process_one_circuit_def translate_swapped ground_sampler_def
      py_range_def empty_world_def Let_def from_readouts_def)

section \<open>The unitary of the decomposer output\<close>

lemma mat_mult_assoc: "mat_mult (mat_mult A B) C = mat_mult A (mat_mult B C)"
  by (cases A; cases B; cases C) (simp add: algebra_simps)

lemma mat_mult_one_left: "mat_mult mat_one A = A"
  by (cases A) (simp add: mat_one_def)

lemma mat_mult_one_right: "mat_mult A mat_one = A"
  by (cases A) (simp add: mat_one_def)

lemma mat_scale_mult:
  "mat_mult (mat_scale p A) (mat_scale q B) = mat_scale (p * q) (mat_mult A B)"
  by (cases A; cases B) (simp add: algebra_simps)

lemma commands_unitary_append:
  "commands_unitary (xs @ ys) =
     (case commands_unitary xs of None \<Rightarrow> None
      | Some u \<Rightarrow> (case commands_unitary ys of None \<Rightarrow> None
                  | Some v \<Rightarrow> Some (mat_mult v u)))"
proof (induction xs)
  case Nil
  show ?case by (simp add: mat_mult_one_right split: option.splits)
next
  case (Cons x xs)
  show ?case
    by (simp add: Cons mat_mult_assoc split: option.splits)
qed

lemma Rz_add: "mat_mult (Rz_unitary x) (Rz_unitary y) = Rz_unitary (x + y)"
proof -
  have 1: "- pi * x / 2 + - pi * y / 2 = - pi * (x + y) / 2"
    by (simp add: algebra_simps add_divide_distrib)
  have 2: "pi * x / 2 + pi * y / 2 = pi * (x + y) / 2"
    by (simp add: algebra_simps add_divide_distrib)
  show ?thesis
    unfolding Rz_unitary_def by (simp add: cis_mult 1 2 del: mult_minus_left)
qed

lemma Rx_add: "mat_mult (Rx_unitary x) (Rx_unitary y) = Rx_unitary (x + y)"
proof -
  have 2: "pi * (x + y) / 2 = pi * x / 2 + pi * y / 2"
    by (simp add: algebra_simps add_divide_distrib)
  show ?thesis
    unfolding Rx_unitary_def 2
    by (simp add: complex_eq_iff cos_add sin_add algebra_simps)
qed

lemma S_scaled: "mat_scale (cis (- pi / 4)) S_unitary = Rz_unitary (1 / 2)"
proof -
  have "cis (- pi / 4) * \<i> = cis (- pi / 4) * cis (pi / 2)"
    by simp
  also have "\<dots> = cis (pi / 4)"
    unfolding cis_mult by simp
  finally show ?thesis
    by (simp add: S_unitary_def Rz_unitary_def)
qed

lemma HSH_scaled:
  "mat_scale (cis (- pi / 4)) (mat_mult H_unitary (mat_mult S_unitary H_unitary))
     = Rx_unitary (1 / 2)"
proof -
  have s: "sqrt 2 * sqrt 2 = 2" by simp
  have c: "cos (pi / 4) = sqrt 2 / 2" by (rule cos_45)
  have d: "sin (pi / 4) = sqrt 2 / 2" by (rule sin_45)
  have e: "1 / sqrt 2 = sqrt 2 / 2"
    by (simp add: real_div_sqrt field_simps)
  have h: "H_unitary = Mat2 (of_real (sqrt 2 / 2)) (of_real (sqrt 2 / 2))
      (of_real (sqrt 2 / 2)) (of_real (- (sqrt 2 / 2)))"
    unfolding H_unitary_def using e by (simp add: complex_eq_iff)
  have m: "- pi / 4 = - (pi / 4)" by simp
  have q: "pi * (1 / 2) / 2 = pi / 4" by simp
  show ?thesis
    unfolding h S_unitary_def Rx_unitary_def q m
    by (simp add: complex_eq_iff c d algebra_simps s)
qed

lemma gate_unitary_S0: "gate_unitary S0 = Some S_unitary"
  by (simp add: gate_unitary_def)

lemma gate_unitary_H0: "gate_unitary H0 = Some H_unitary"
  by (simp add: gate_unitary_def)

lemma commands_unitary_HSH:
  "commands_unitary [H0, S0, H0] = Some (mat_mult H_unitary (mat_mult S_unitary H_unitary))"
  by (simp add: gate_unitary_S0 gate_unitary_H0 mat_mult_one_left mat_mult_assoc)

lemma cis_quarter_Suc: "cis (- pi * real (Suc n) / 4) = cis (- pi * real n / 4) * cis (- pi / 4)"
proof -
  have "- pi * real (Suc n) / 4 = - pi * real n / 4 + - pi / 4"
    by (simp add: field_simps)
  then show ?thesis
    unfolding cis_mult by (rule arg_cong)
qed

lemma half_Suc: "real (Suc n) / 2 = real n / 2 + 1 / 2"
  by (simp add: add_divide_distrib)

lemma S_power_unitary:
  "\<exists>U. commands_unitary (replicate n S0) = Some U
       \<and> mat_scale (cis (- pi * real n / 4)) U = Rz_unitary (real n / 2)"
proof (induction n)
  case 0
  show ?case by (simp add: mat_one_def Rz_unitary_def)
next
  case (Suc n)
  then obtain U where u: "commands_unitary (replicate n S0) = Some U" and
    r: "mat_scale (cis (- pi * real n / 4)) U = Rz_unitary (real n / 2)"
    by blast
  have "commands_unitary (replicate (Suc n) S0) = Some (mat_mult U S_unitary)"
    by (simp add: u gate_unitary_S0)
  moreover have "mat_scale (cis (- pi * real (Suc n) / 4)) (mat_mult U S_unitary)
      = Rz_unitary (real (Suc n) / 2)"
    unfolding cis_quarter_Suc half_Suc mat_scale_mult [symmetric] r S_scaled Rz_add ..
  ultimately show ?case by blast
qed

lemma HSH_power_unitary:
  "\<exists>U. commands_unitary (concat (replicate n [H0, S0, H0])) = Some U
       \<and> mat_scale (cis (- pi * real n / 4)) U = Rx_unitary (real n / 2)"
proof (induction n)
  case 0
  show ?case by (simp add: mat_one_def Rx_unitary_def)
next
  case (Suc n)
  then obtain U where u: "commands_unitary (concat (replicate n [H0, S0, H0])) = Some U" and
    r: "mat_scale (cis (- pi * real n / 4)) U = Rx_unitary (real n / 2)"
    by blast
  let ?G = "mat_mult H_unitary (mat_mult S_unitary H_unitary)"
  have "concat (replicate (Suc n) [H0, S0, H0]) = [H0, S0, H0] @ concat (replicate n [H0, S0, H0])"
    by simp
  then have "commands_unitary (concat (replicate (Suc n) [H0, S0, H0])) = Some (mat_mult U ?G)"
    by (simp only: commands_unitary_append commands_unitary_HSH u option.case)
  moreover have "mat_scale (cis (- pi * real (Suc n) / 4)) (mat_mult U ?G)
      = Rx_unitary (real (Suc n) / 2)"
    unfolding cis_quarter_Suc half_Suc mat_scale_mult [symmetric] r HSH_scaled Rx_add ..
  ultimately show ?case by blast
qed

lemma Rz_period: "Rz_unitary (x + 4 * of_int k) = Rz_unitary x"
proof -
  have 1: "- pi * (x + 4 * of_int k) / 2 = - pi * x / 2 + 2 * pi * of_int (- k)"
    by (simp add: field_simps)
  have 2: "pi * (x + 4 * of_int k) / 2 = pi * x / 2 + 2 * pi * of_int k"
    by (simp add: algebra_simps add_divide_distrib)
  have 3: "cis (2 * pi * of_int j) = 1" for j :: int
    by (rule cis_multiple_2pi) simp
  show ?thesis
    unfolding Rz_unitary_def 1 2 cis_mult [symmetric] 3 by simp
qed

lemma Rx_period: "Rx_unitary (x + 4 * of_int k) = Rx_unitary x"
proof -
  have 2: "pi * (x + 4 * of_int k) / 2 = pi * x / 2 + 2 * pi * of_int k"
    by (simp add: algebra_simps add_divide_distrib)
  show ?thesis
    unfolding Rx_unitary_def 2 by (simp add: cos_add sin_add)
qed

lemma half_mod_8: "real_of_int m / 2 = real_of_int (m mod 8) / 2 + 4 * of_int (m div 8)"
proof -
  have "m = 8 * (m div 8) + m mod 8" by simp
  then have "real_of_int m = 8 * real_of_int (m div 8) + real_of_int (m mod 8)"
    by (metis of_int_add of_int_mult of_int_numeral)
  then show ?thesis by simp
qed

lemma Rz_mod_8: "Rz_unitary (real_of_int (m mod 8) / 2) = Rz_unitary (real_of_int m / 2)"
  unfolding half_mod_8 [of m] Rz_period ..

lemma Rx_mod_8: "Rx_unitary (real_of_int (m mod 8) / 2) = Rx_unitary (real_of_int m / 2)"
  unfolding half_mod_8 [of m] Rx_period ..

lemma cis_phase_split:
  "cis (pi * (- (1/4) * of_int (int na + int nb + int nc)))
     = (cis (- pi * real na / 4) * cis (- pi * real nb / 4)) * cis (- pi * real nc / 4)"
proof -
  have "pi * (- (1/4) * of_int (int na + int nb + int nc))
      = (- pi * real na / 4 + - pi * real nb / 4) + - pi * real nc / 4"
    by (simp add: field_simps)
  then show ?thesis
    unfolding cis_mult by (rule arg_cong)
qed

lemma shape_unitary:
  "circuit_unitary
     \<lparr>qubits = qs, bits = bs,
      commands = replicate nc S0 @ concat (replicate nb [H0, S0, H0]) @ replicate na S0,
      phase = - (1/4) * of_int (int na + int nb + int nc)\<rparr>
   = Some (TK1_unitary (real na / 2) (real nb / 2) (real nc / 2))"
proof -
  from S_power_unitary [of nc] obtain Uc where
    uc: "commands_unitary (replicate nc S0) = Some Uc" and
    rc: "mat_scale (cis (- pi * real nc / 4)) Uc = Rz_unitary (real nc / 2)"
    by blast
  from HSH_power_unitary [of nb] obtain Ub where
    ub: "commands_unitary (concat (replicate nb [H0, S0, H0])) = Some Ub" and
    rb: "mat_scale (cis (- pi * real nb / 4)) Ub = Rx_unitary (real nb / 2)"
    by blast
  from S_power_unitary [of na] obtain Ua where
    ua: "commands_unitary (replicate na S0) = Some Ua" and
    ra: "mat_scale (cis (- pi * real na / 4)) Ua = Rz_unitary (real na / 2)"
    by blast
  have u: "commands_unitary
      (replicate nc S0 @ concat (replicate nb [H0, S0, H0]) @ replicate na S0)
      = Some (mat_mult (mat_mult Ua Ub) Uc)"
    by (simp only: commands_unitary_append uc ub ua option.case)
  have "mat_scale (cis (pi * (- (1/4) * of_int (int na + int nb + int nc))))
          (mat_mult (mat_mult Ua Ub) Uc)
        = mat_mult (mat_mult (Rz_unitary (real na / 2)) (Rx_unitary (real nb / 2)))
            (Rz_unitary (real nc / 2))"
    unfolding cis_phase_split mat_scale_mult [symmetric] ra rb rc ..
  then show ?thesis
    by (simp add: circuit_unitary_def u TK1_unitary_def mat_mult_assoc)
qed

lemma tk1_to_cliff_accepted:
  assumes "tk1_to_cliff a b c = Inr circ"
  shows "\<exists>n_a n_b n_c. int_double a = Inr n_a \<and> int_double b = Inr n_b \<and> int_double c = Inr n_c"
  using assms by (simp add: tk1_to_cliff_def split: sum.splits)

lemma TK1_mod_8:
  "TK1_unitary (real_of_int (ma mod 8) / 2) (real_of_int (mb mod 8) / 2)
     (real_of_int (mc mod 8) / 2)
   = TK1_unitary (real_of_int ma / 2) (real_of_int mb / 2) (real_of_int mc / 2)"
  unfolding TK1_unitary_def Rz_mod_8 Rx_mod_8 ..

text \<open>
  For every accepted triple, the returned circuit has the unitary of \<open>TK1\<close> at the
  rounded angles.
\<close>

lemma tk1_to_cliff_rounded_unitary:
  assumes "tk1_to_cliff a b c = Inr circ"
  shows "circuit_unitary circ =
     Some (TK1_unitary (real_of_int (np_round (2 * a)) / 2) (real_of_int (np_round (2 * b)) / 2)
             (real_of_int (np_round (2 * c)) / 2))"
proof -
  from tk1_to_cliff_accepted [OF assms] obtain n_a n_b n_c where
    a: "int_double a = Inr n_a" and b: "int_double b = Inr n_b" and c: "int_double c = Inr n_c"
    by blast
  from int_double_range [OF a] int_double_range [OF b] int_double_range [OF c]
  have pos: "0 \<le> n_a" "0 \<le> n_b" "0 \<le> n_c"
    by simp_all
  then have sum: "n_a + n_b + n_c = int (nat n_a) + int (nat n_b) + int (nat n_c)"
    by simp
  from tk1_to_cliff_commands [OF a b c] assms have
    "circ = \<lparr>qubits = [Qubit ''q'' [0]], bits = [],
          commands = replicate (nat n_c) S0 @ concat (replicate (nat n_b) [H0, S0, H0])
                       @ replicate (nat n_a) S0,
          phase = - (1/4) * of_int (int (nat n_a) + int (nat n_b) + int (nat n_c))\<rparr>"
    unfolding sum by simp
  then have "circuit_unitary circ =
      Some (TK1_unitary (real (nat n_a) / 2) (real (nat n_b) / 2) (real (nat n_c) / 2))"
    by (simp only: shape_unitary)
  also from pos have "\<dots> =
      Some (TK1_unitary (real_of_int n_a / 2) (real_of_int n_b / 2) (real_of_int n_c / 2))"
    by simp
  also have "\<dots> = Some (TK1_unitary (real_of_int (np_round (2 * a)) / 2)
      (real_of_int (np_round (2 * b)) / 2) (real_of_int (np_round (2 * c)) / 2))"
    unfolding int_double_value [OF a] int_double_value [OF b] int_double_value [OF c] TK1_mod_8 ..
  finally show ?thesis .
qed

text \<open>
  For all integers \<open>n_a\<close>, \<open>n_b\<close>, \<open>n_c\<close> whose halves have finite doubles, that is for
  every triple of angles that are exact multiples of one half, the decomposer accepts the
  triple, and the unitary of the circuit it returns (the product of the emitted phase and
  Hadamard gates, times the global phase) is the matrix of \<open>TK1\<close> at these angles. The 512
  residue combinations are the integers from 0 to 7.
\<close>

lemma tk1_to_cliff_half_integers:
  assumes "\<bar>real_of_int n_a / 2\<bar> < 2 ^ 1023" and "\<bar>real_of_int n_b / 2\<bar> < 2 ^ 1023"
    and "\<bar>real_of_int n_c / 2\<bar> < 2 ^ 1023"
  shows "\<exists>circ. tk1_to_cliff (real_of_int n_a / 2) (real_of_int n_b / 2) (real_of_int n_c / 2)
             = Inr circ
     \<and> circuit_unitary circ =
         Some (TK1_unitary (real_of_int n_a / 2) (real_of_int n_b / 2) (real_of_int n_c / 2))"
proof -
  let ?a = "real_of_int n_a / 2" and ?b = "real_of_int n_b / 2" and ?c = "real_of_int n_c / 2"
  from tk1_to_cliff_commands [OF int_double_half_integer [OF assms(1)]
      int_double_half_integer [OF assms(2)] int_double_half_integer [OF assms(3)]]
  obtain circ where e: "tk1_to_cliff ?a ?b ?c = Inr circ"
    by blast
  from tk1_to_cliff_rounded_unitary [OF e] have
    "circuit_unitary circ = Some (TK1_unitary ?a ?b ?c)"
    by (simp add: np_round_of_int)
  with e show ?thesis
    by blast
qed

lemma tk1_to_cliff_half_integers_example:
  "tk1_to_cliff (1/2) 1 (3/2) =
     Inr \<lparr>qubits = [Qubit ''q'' [0]], bits = [],
          commands = [S0, S0, S0, H0, S0, H0, H0, S0, H0, S0], phase = - (3/2)\<rparr>
   \<and> circuit_unitary
        \<lparr>qubits = [Qubit ''q'' [0]], bits = [],
         commands = [S0, S0, S0, H0, S0, H0, H0, S0, H0, S0], phase = - (3/2)\<rparr>
       = Some (TK1_unitary (1/2) 1 (3/2))"
proof -
  let ?C = "\<lparr>qubits = [Qubit ''q'' [0]], bits = [],
         commands = [S0, S0, S0, H0, S0, H0, H0, S0, H0, S0], phase = - (3/2)\<rparr>"
  note a = int_double_examples(1) and b = int_double_examples(2) and c = int_double_examples(3)
  have e: "tk1_to_cliff (1/2) 1 (3/2) = Inr ?C"
    using tk1_to_cliff_commands [OF a b c] by (simp add: numeral_eq_Suc)
  from tk1_to_cliff_half_integers [of 1 2 3] obtain circ where
    "tk1_to_cliff (1/2) 1 (3/2) = Inr circ" and
    "circuit_unitary circ = Some (TK1_unitary (1/2) 1 (3/2))"
    by auto
  with e show ?thesis by simp
qed

lemma Rx_zero: "Rx_unitary 0 = mat_one"
  by (simp add: Rx_unitary_def mat_one_def)

lemma Rz_zero: "Rz_unitary 0 = mat_one"
  by (simp add: Rz_unitary_def mat_one_def)

lemma cis_eighth_not_one: "cis (pi / 8) \<noteq> 1"
proof
  assume "cis (pi / 8) = 1"
  then have "Re (cis (pi / 8)) = Re 1" by simp
  then have "cos (pi / 8) = 1" by simp
  moreover have "cos (pi / 8) < cos 0"
    by (rule cos_monotone_0_pi) simp_all
  ultimately show False by simp
qed

text \<open>
  The closeness test at the angle 50000.25: the doubled angle 100000.5 is rounded to
  100000, the difference is one half, and the right-hand side, computed in binary64, is
  \<open>fl (atol + fl (rtol * 100000)) = fl (atol + 1) = 1125899918101623 / 2^50\<close>, a little
  above one.
\<close>

lemma fl_rtol_100000: "fl (rtol * 100000) = 1"
proof -
  have "fl (rtol * 100000) =
      real_of_int (np_round (rtol * 100000 / 2 powr real_of_int (0 - 52)))
        * 2 powr real_of_int (0 - 52)"
    by (rule fl_binade) (simp_all add: rtol_def)
  also have "\<dots> = 1"
    by (simp add: rtol_def np_round_def powr_neg_numeral)
  finally show ?thesis .
qed

lemma fl_atol_plus_one: "fl (atol + 1) = 1125899918101623 / 2 ^ 50"
proof -
  have "fl (atol + 1) =
      real_of_int (np_round ((atol + 1) / 2 powr real_of_int (0 - 52)))
        * 2 powr real_of_int (0 - 52)"
    by (rule fl_binade) (simp_all add: atol_def)
  also have "\<dots> = 1125899918101623 / 2 ^ 50"
    by (simp add: atol_def np_round_def powr_neg_numeral)
  finally show ?thesis .
qed

lemma np_isclose_large: "np_isclose (200001/2) 100000"
proof -
  have "fl (200001/2 - real_of_int 100000) = 1/2"
    using fl_half by simp
  moreover have "fl (atol + fl (rtol * \<bar>real_of_int 100000\<bar>)) = 1125899918101623 / 2 ^ 50"
    using fl_rtol_100000 fl_atol_plus_one by simp
  ultimately show ?thesis
    unfolding np_isclose_def by simp
qed

lemma int_double_large: "int_double (200001/4) = Inr 0"
proof -
  have r: "np_round (2 * (200001/4)) = 100000"
    by (simp add: np_round_def)
  have "np_isclose (2 * (200001/4)) 100000"
    using np_isclose_large by simp
  with r show ?thesis
    by (simp add: int_double_def)
qed

text \<open>
  C1. The property (the circuit returned for a triple that passes the tolerance test has
  the unitary of \<open>TK1\<close> at that triple) fails at the triple \<open>(50000.25, 0, 0)\<close>. The
  closeness test has a relative term, so the angle 50000.25 passes it (its double 100000.5
  is rounded to 100000, and 0.5 is below \<open>1e-8 + 1e-5 * 100000\<close>) with residue 0. The
  returned circuit is empty, with the identity as its unitary, whereas
  \<open>TK1(50000.25, 0, 0)\<close> is \<open>diag(e^(-i\<pi>/8), e^(i\<pi>/8))\<close>, a quarter-turn phase that is no
  multiple of the identity.
\<close>

theorem tk1_to_cliff_large_angle:
  "clifford_angle (200001/4) \<and> clifford_angle 0
   \<and> int_double (200001/4) = Inr 0
   \<and> tk1_to_cliff (200001/4) 0 0 =
       Inr \<lparr>qubits = [Qubit ''q'' [0]], bits = [], commands = [], phase = 0\<rparr>
   \<and> circuit_unitary \<lparr>qubits = [Qubit ''q'' [0]], bits = [], commands = [], phase = 0\<rparr>
       = Some (Mat2 1 0 0 1)
   \<and> TK1_unitary (200001/4) 0 0 = Mat2 (cis (- pi / 8)) 0 0 (cis (pi / 8))
   \<and> circuit_unitary \<lparr>qubits = [Qubit ''q'' [0]], bits = [], commands = [], phase = 0\<rparr>
       \<noteq> Some (TK1_unitary (200001/4) 0 0)"
proof -
  note a = int_double_large and z = int_double_examples(4)
  have r: "np_round (2 * (200001/4)) = 100000"
    by (simp add: np_round_def)
  have ca: "clifford_angle (200001/4)"
    unfolding clifford_angle_def r using np_isclose_large by simp
  have cz: "clifford_angle 0"
    using np_isclose_exact [of 0] by (simp add: clifford_angle_def np_round_def)
  have e: "tk1_to_cliff (200001/4) 0 0 =
       Inr \<lparr>qubits = [Qubit ''q'' [0]], bits = [], commands = [], phase = 0\<rparr>"
    using tk1_to_cliff_commands [OF a z z] by simp
  have u: "circuit_unitary \<lparr>qubits = [Qubit ''q'' [0]], bits = [], commands = [], phase = 0\<rparr>
       = Some (Mat2 1 0 0 1)"
    by (simp add: circuit_unitary_def mat_one_def)
  have "(200001/4 :: real) = 1/4 + 4 * of_int 12500"
    by simp
  then have "Rz_unitary (200001/4) = Rz_unitary (1/4)"
    using Rz_period [of "1/4" 12500] by simp
  then have t: "TK1_unitary (200001/4) 0 0 = Mat2 (cis (- pi / 8)) 0 0 (cis (pi / 8))"
    by (simp add: TK1_unitary_def Rx_zero Rz_zero mat_mult_one_right) (simp add: Rz_unitary_def)
  from cis_eighth_not_one have n1: "Mat2 1 0 0 1 \<noteq> Mat2 (cis (- pi / 8)) 0 0 (cis (pi / 8))"
    by simp
  from ca cz a e u t n1 show ?thesis by simp
qed

end
